theory Spec2Isabelle
  imports Complex_Main
begin

section \<open>Python and numpy primitives used by the program\<close>

text \<open>
  Timestamps and signal values are \<open>float64\<close> in the program; they are modelled as
  \<^typ>\<open>real\<close> (finite values, exact arithmetic). Python integers are \<^typ>\<open>int\<close>.
  Exceptions are values: an operation that can raise after it has already mutated an
  object returns the exception (if any) together with the mutated object.
\<close>

datatype exn =
  KeyError | IndexError | ValueError | TypeError | ZeroDivisionError | DecodeError
  | KeyboardInterrupt

text \<open>\<open>except Exception\<close> catches every class but those deriving from \<open>BaseException\<close> only.\<close>

fun is_Exception :: "exn \<Rightarrow> bool" where
  "is_Exception KeyboardInterrupt = False"
| "is_Exception _ = True"

text \<open>
  \<open>np.empty(n)\<close> raises \<open>ValueError\<close> for a negative size and otherwise returns an array
  whose contents are whatever the allocator left there: the parameter \<open>mem\<close>. Memory
  is not modelled: the allocation of a non-negative size always succeeds here, while
  numpy raises for a size it cannot allocate.
\<close>

definition np_empty :: "(nat \<Rightarrow> real) \<Rightarrow> int \<Rightarrow> exn + real list" where
  "np_empty mem n = (if n < 0 then Inl ValueError else Inr (map mem [0..<nat n]))"

text \<open>\<open>a[i] = v\<close> on a one-dimensional array: negative indices count from the end.\<close>

definition np_setitem :: "real list \<Rightarrow> int \<Rightarrow> real \<Rightarrow> exn + real list" where
  "np_setitem a i v =
     (let n = int (length a) in
      if 0 \<le> i \<and> i < n then Inr (a[nat i := v])
      else if - n \<le> i \<and> i < 0 then Inr (a[nat (n + i) := v])
      else Inl IndexError)"

text \<open>\<open>a[:k]\<close> and \<open>a[k:]\<close>; an index below \<open>-len(a)\<close> is clamped to 0.\<close>

definition slice_to :: "'a list \<Rightarrow> int \<Rightarrow> 'a list" where
  "slice_to a k = (if 0 \<le> k then take (nat k) a else take (nat (int (length a) + k)) a)"

definition slice_from :: "'a list \<Rightarrow> int \<Rightarrow> 'a list" where
  "slice_from a k = (if 0 \<le> k then drop (nat k) a else drop (nat (int (length a) + k)) a)"

text \<open>\<open>a[lo:hi]\<close> for the non-negative indices that \<open>np.searchsorted\<close> returns.\<close>

definition slice_between :: "'a list \<Rightarrow> nat \<Rightarrow> nat \<Rightarrow> 'a list" where
  "slice_between a lo hi = take (hi - lo) (drop lo a)"

text \<open>
  \<open>np.searchsorted(a, v, side)\<close>: numpy's binary search. With \<open>side="left"\<close> the
  comparison is \<open>a[mid] < v\<close>, with \<open>side="right"\<close> it is \<open>a[mid] <= v\<close>.
\<close>

function binsearch_left :: "real list \<Rightarrow> real \<Rightarrow> nat \<Rightarrow> nat \<Rightarrow> nat" where
  "binsearch_left a v lo hi =
     (if lo < hi then
        (let mid = lo + (hi - lo) div 2 in
         if a ! mid < v then binsearch_left a v (mid + 1) hi
         else binsearch_left a v lo mid)
      else lo)"
  by pat_completeness auto
termination
  by (relation "measure (\<lambda>(a, v, lo, hi). hi - lo)") auto

function binsearch_right :: "real list \<Rightarrow> real \<Rightarrow> nat \<Rightarrow> nat \<Rightarrow> nat" where
  "binsearch_right a v lo hi =
     (if lo < hi then
        (let mid = lo + (hi - lo) div 2 in
         if a ! mid \<le> v then binsearch_right a v (mid + 1) hi
         else binsearch_right a v lo mid)
      else lo)"
  by pat_completeness auto
termination
  by (relation "measure (\<lambda>(a, v, lo, hi). hi - lo)") auto

definition searchsorted_left :: "real list \<Rightarrow> real \<Rightarrow> nat" where
  "searchsorted_left a v = binsearch_left a v 0 (length a)"

definition searchsorted_right :: "real list \<Rightarrow> real \<Rightarrow> nat" where
  "searchsorted_right a v = binsearch_right a v 0 (length a)"

text \<open>\<open>np.min\<close> and \<open>np.max\<close> of a non-empty array.\<close>

definition np_min :: "real list \<Rightarrow> real" where
  "np_min a = fold min (tl a) (hd a)"

definition np_max :: "real list \<Rightarrow> real" where
  "np_max a = fold max (tl a) (hd a)"

section \<open>live_data_store.py: CircularBuffer\<close>

record CircularBuffer =
  cb_t :: "real list"
  cb_val :: "real list"
  cb_capacity :: int
  cb_head :: int
  cb_count :: int

text \<open>\<open>CircularBuffer.__init__\<close>: two \<open>np.empty(capacity)\<close> arrays, head and count 0.\<close>

definition CircularBuffer_init :: "(nat \<Rightarrow> real) \<Rightarrow> int \<Rightarrow> exn + CircularBuffer" where
  "CircularBuffer_init mem capacity =
     (case np_empty mem capacity of
        Inl e \<Rightarrow> Inl e
      | Inr t \<Rightarrow>
          (case np_empty mem capacity of
             Inl e \<Rightarrow> Inl e
           | Inr val \<Rightarrow>
               Inr \<lparr>cb_t = t, cb_val = val, cb_capacity = capacity, cb_head = 0, cb_count = 0\<rparr>))"

text \<open>
  \<open>CircularBuffer.append\<close>, statement by statement; an exception leaves the buffer as
  the statements before it made it.
\<close>

definition CircularBuffer_append ::
  "CircularBuffer \<Rightarrow> real \<Rightarrow> real \<Rightarrow> exn option \<times> CircularBuffer" where
  "CircularBuffer_append b t val =
     (case np_setitem (cb_t b) (cb_head b) t of
        Inl e \<Rightarrow> (Some e, b)
      | Inr ta \<Rightarrow>
          (let b1 = b\<lparr>cb_t := ta\<rparr> in
           case np_setitem (cb_val b1) (cb_head b1) val of
             Inl e \<Rightarrow> (Some e, b1)
           | Inr va \<Rightarrow>
               (let b2 = b1\<lparr>cb_val := va\<rparr> in
                if cb_capacity b2 = 0 then (Some ZeroDivisionError, b2)
                else
                  (let b3 = b2\<lparr>cb_head := (cb_head b2 + 1) mod cb_capacity b2\<rparr> in
                   if cb_count b3 < cb_capacity b3
                   then (None, b3\<lparr>cb_count := cb_count b3 + 1\<rparr>)
                   else (None, b3)))))"

text \<open>
  \<open>CircularBuffer.get_arrays\<close>. In the wrapped case the source allocates an output array
  of length \<open>capacity\<close> and assigns \<open>_t[head:]\<close> to its first \<open>capacity - head\<close> slots and
  \<open>_t[:head]\<close> to the rest. The arrays have length \<open>capacity\<close> and \<open>0 \<le> head < capacity\<close>
  in every buffer that the constructor and \<open>append\<close> produce (\<open>buf_holds\<close> below), so both
  assignments fit exactly and the result is the concatenation of the two slices.
\<close>

definition CircularBuffer_get_arrays :: "CircularBuffer \<Rightarrow> real list \<times> real list" where
  "CircularBuffer_get_arrays b =
     (if cb_count b = 0 then ([], [])
      else if cb_count b < cb_capacity b then
        (slice_to (cb_t b) (cb_count b), slice_to (cb_val b) (cb_count b))
      else
        (slice_from (cb_t b) (cb_head b) @ slice_to (cb_t b) (cb_head b),
         slice_from (cb_val b) (cb_head b) @ slice_to (cb_val b) (cb_head b)))"

text \<open>A sequence of appends to one buffer, stopping at the first exception.\<close>

fun CircularBuffer_appends ::
  "CircularBuffer \<Rightarrow> (real \<times> real) list \<Rightarrow> exn option \<times> CircularBuffer" where
  "CircularBuffer_appends b [] = (None, b)"
| "CircularBuffer_appends b ((t, val) # rest) =
     (case CircularBuffer_append b t val of
        (None, b') \<Rightarrow> CircularBuffer_appends b' rest
      | (Some e, b') \<Rightarrow> (Some e, b'))"

section \<open>live_data_store.py: LiveDataStore\<close>

record LiveDataStore =
  buffers :: "string \<rightharpoonup> CircularBuffer"
  buffer_capacity :: int
  t0 :: "real option"
  latest_t :: "real option"

definition LiveDataStore_init :: "int \<Rightarrow> LiveDataStore" where
  "LiveDataStore_init capacity =
     \<lparr>buffers = Map.empty, buffer_capacity = capacity, t0 = None, latest_t = None\<rparr>"

text \<open>The last line of \<open>append\<close>: \<open>self._buffers[signal_name].append(t_rel, value)\<close>.\<close>

definition buffer_append_in_store ::
  "LiveDataStore \<Rightarrow> string \<Rightarrow> CircularBuffer \<Rightarrow> real \<Rightarrow> real
     \<Rightarrow> exn option \<times> LiveDataStore" where
  "buffer_append_in_store s signal_name b t_rel val =
     (case CircularBuffer_append b t_rel val of
        (r, b') \<Rightarrow> (r, s\<lparr>buffers := (buffers s)(signal_name \<mapsto> b')\<rparr>))"

definition LiveDataStore_append ::
  "(nat \<Rightarrow> real) \<Rightarrow> LiveDataStore \<Rightarrow> string \<Rightarrow> real \<Rightarrow> real
     \<Rightarrow> exn option \<times> LiveDataStore" where
  "LiveDataStore_append mem s signal_name timestamp val =
     (let z = (case t0 s of None \<Rightarrow> timestamp | Some z \<Rightarrow> z);
          s1 = s\<lparr>t0 := Some z\<rparr>;
          t_rel = timestamp - z;
          s2 = (case latest_t s1 of
                  None \<Rightarrow> s1\<lparr>latest_t := Some t_rel\<rparr>
                | Some l \<Rightarrow> if t_rel > l then s1\<lparr>latest_t := Some t_rel\<rparr> else s1)
      in case buffers s2 signal_name of
           Some b \<Rightarrow> buffer_append_in_store s2 signal_name b t_rel val
         | None \<Rightarrow>
             (case CircularBuffer_init mem (buffer_capacity s2) of
                Inl e \<Rightarrow> (Some e, s2)
              | Inr b \<Rightarrow>
                  buffer_append_in_store
                    (s2\<lparr>buffers := (buffers s2)(signal_name \<mapsto> b)\<rparr>) signal_name b t_rel val))"

definition LiveDataStore_get_arrays ::
  "LiveDataStore \<Rightarrow> string \<Rightarrow> (real list \<times> real list) option" where
  "LiveDataStore_get_arrays s signal_name =
     (case buffers s signal_name of
        None \<Rightarrow> None
      | Some buf \<Rightarrow> Some (CircularBuffer_get_arrays buf))"

definition LiveDataStore_get_latest_timestamp :: "LiveDataStore \<Rightarrow> real option" where
  "LiveDataStore_get_latest_timestamp s = latest_t s"

definition LiveDataStore_clear :: "LiveDataStore \<Rightarrow> LiveDataStore" where
  "LiveDataStore_clear s = s\<lparr>buffers := Map.empty, t0 := None, latest_t := None\<rparr>"

text \<open>A sequence of \<open>append\<close> calls on one store, stopping at the first exception.\<close>

fun LiveDataStore_appends ::
  "(nat \<Rightarrow> real) \<Rightarrow> LiveDataStore \<Rightarrow> (string \<times> real \<times> real) list
     \<Rightarrow> exn option \<times> LiveDataStore" where
  "LiveDataStore_appends mem s [] = (None, s)"
| "LiveDataStore_appends mem s ((signal_name, timestamp, val) # rest) =
     (case LiveDataStore_append mem s signal_name timestamp val of
        (None, s') \<Rightarrow> LiveDataStore_appends mem s' rest
      | (Some e, s') \<Rightarrow> (Some e, s'))"

section \<open>decode.py: DecoderListener\<close>

record Message =
  arbitration_id :: int
  data :: "nat list"
  timestamp :: real

text \<open>
  The schema is an external collaborator (a \<open>cantools\<close> database).
  \<open>get_message_by_frame_id\<close> raises \<open>KeyError\<close> for an id the database does not have, so
  the database is a partial map from ids to message descriptors; a descriptor is its
  \<open>decode\<close> method, which raises or returns the signals in dictionary order. A decoded
  value is a number, or an object on which \<open>float()\<close> raises \<open>TypeError\<close>.
\<close>

datatype sigval = Number real | NonNumeric

fun py_float :: "sigval \<Rightarrow> exn + real" where
  "py_float (Number x) = Inr x"
| "py_float NonNumeric = Inl TypeError"

type_synonym db_message = "nat list \<Rightarrow> exn + (string \<times> sigval) list"

type_synonym database = "int \<rightharpoonup> db_message"

text \<open>
  What the listener does to the outside world is recorded in three traces: the records
  written to the module logger, the calls made on the database, and the lists handed to
  \<open>new_signals_callback\<close>.
\<close>

datatype log_record = InfoCannotDecode int | ErrorDecoding int

datatype db_call = GetMessageByFrameId int | Decode int "nat list"

record DecoderListener =
  db :: database
  data_store :: LiveDataStore
  new_signals_callback :: "(string list \<Rightarrow> exn option) option"
  no_decode :: "int set"
  known_signals :: "string set"
  logged :: "log_record list"
  db_calls :: "db_call list"
  notified :: "string list list"

definition DecoderListener_init ::
  "database \<Rightarrow> LiveDataStore \<Rightarrow> (string list \<Rightarrow> exn option) option \<Rightarrow> DecoderListener" where
  "DecoderListener_init d store callback =
     \<lparr>db = d, data_store = store, new_signals_callback = callback,
      no_decode = {}, known_signals = {}, logged = [], db_calls = [], notified = []\<rparr>"

text \<open>
  The \<open>for signal_name, value in signals.items()\<close> loop. \<open>float(value)\<close> is evaluated
  before \<open>append\<close> is called. The result carries the exception that ended the loop, the
  listener as mutated so far, and \<open>newly_discovered\<close>.
\<close>

fun signals_loop ::
  "(nat \<Rightarrow> real) \<Rightarrow> Message \<Rightarrow> (string \<times> sigval) list \<Rightarrow> DecoderListener \<Rightarrow> string list
     \<Rightarrow> exn option \<times> DecoderListener \<times> string list" where
  "signals_loop mem msg [] s newly_discovered = (None, s, newly_discovered)"
| "signals_loop mem msg ((signal_name, v) # rest) s newly_discovered =
     (case py_float v of
        Inl e \<Rightarrow> (Some e, s, newly_discovered)
      | Inr x \<Rightarrow>
          (case LiveDataStore_append mem (data_store s) signal_name (timestamp msg) x of
             (Some e, store') \<Rightarrow> (Some e, s\<lparr>data_store := store'\<rparr>, newly_discovered)
           | (None, store') \<Rightarrow>
               (let s1 = s\<lparr>data_store := store'\<rparr> in
                if signal_name \<notin> known_signals s1
                then signals_loop mem msg rest
                       (s1\<lparr>known_signals := insert signal_name (known_signals s1)\<rparr>)
                       (newly_discovered @ [signal_name])
                else signals_loop mem msg rest s1 newly_discovered)))"

text \<open>
  The two \<open>except\<close> clauses of \<open>on_message_received\<close>, applied to an exception raised in
  the \<open>try\<close> body; an exception that neither clause catches leaves the method.
\<close>

definition except_clauses ::
  "DecoderListener \<Rightarrow> Message \<Rightarrow> exn \<Rightarrow> exn option \<times> DecoderListener" where
  "except_clauses s msg e =
     (if e = KeyError then
        (None, s\<lparr>logged := logged s @ [InfoCannotDecode (arbitration_id msg)],
                 no_decode := insert (arbitration_id msg) (no_decode s)\<rparr>)
      else if is_Exception e then
        (None, s\<lparr>logged := logged s @ [ErrorDecoding (arbitration_id msg)]\<rparr>)
      else (Some e, s))"

definition on_message_received ::
  "(nat \<Rightarrow> real) \<Rightarrow> DecoderListener \<Rightarrow> Message \<Rightarrow> exn option \<times> DecoderListener" where
  "on_message_received mem s msg =
     (if arbitration_id msg \<in> no_decode s then (None, s)
      else
        (let s1 = s\<lparr>db_calls := db_calls s @ [GetMessageByFrameId (arbitration_id msg)]\<rparr> in
         case db s1 (arbitration_id msg) of
           None \<Rightarrow> except_clauses s1 msg KeyError
         | Some db_message \<Rightarrow>
             (let s2 = s1\<lparr>db_calls := db_calls s1 @ [Decode (arbitration_id msg) (data msg)]\<rparr> in
              case db_message (data msg) of
                Inl e \<Rightarrow> except_clauses s2 msg e
              | Inr signals \<Rightarrow>
                  (case signals_loop mem msg signals s2 [] of
                     (Some e, s3, newly_discovered) \<Rightarrow> except_clauses s3 msg e
                   | (None, s3, newly_discovered) \<Rightarrow>
                       (if newly_discovered \<noteq> [] then
                          (case new_signals_callback s3 of
                             None \<Rightarrow> (None, s3)
                           | Some callback \<Rightarrow>
                               (let s4 = s3\<lparr>notified := notified s3 @ [newly_discovered]\<rparr> in
                                case callback newly_discovered of
                                  None \<Rightarrow> (None, s4)
                                | Some e \<Rightarrow> except_clauses s4 msg e))
                        else (None, s3))))))"

text \<open>
  The producer context delivers frames one at a time; an exception that leaves
  \<open>on_message_received\<close> ends the delivery.
\<close>

fun deliver ::
  "(nat \<Rightarrow> real) \<Rightarrow> DecoderListener \<Rightarrow> Message list \<Rightarrow> exn option \<times> DecoderListener" where
  "deliver mem s [] = (None, s)"
| "deliver mem s (msg # rest) =
     (case on_message_received mem s msg of
        (None, s') \<Rightarrow> deliver mem s' rest
      | (Some e, s') \<Rightarrow> (Some e, s'))"

section \<open>main_window.py and figure_block.py: the fixed-window refresh\<close>

text \<open>\<open>TIME_WINDOWS.get(window_key)\<close> from constants.py.\<close>

definition TIME_WINDOWS_get :: "string \<Rightarrow> real option" where
  "TIME_WINDOWS_get window_key =
     (if window_key = ''win_10s'' then Some 10
      else if window_key = ''win_30s'' then Some 30
      else if window_key = ''win_60s'' then Some 60
      else if window_key = ''win_120s'' then Some 120
      else if window_key = ''win_300s'' then Some 300
      else None)"

text \<open>
  \<open>MainWindow._on_refresh_tick\<close> up to the loop over the figure blocks: the value of
  \<open>t_min\<close> and the \<open>visible_t_range\<close> it hands to \<open>refresh_plots\<close>; \<open>None\<close> when the
  blocks are refreshed without a range.
\<close>

definition on_refresh_tick_range ::
  "bool \<Rightarrow> string \<Rightarrow> LiveDataStore \<Rightarrow> (real \<times> real \<times> real) option" where
  "on_refresh_tick_range auto_scroll window_key store =
     (case TIME_WINDOWS_get window_key of
        None \<Rightarrow> None
      | Some window_sec \<Rightarrow>
          if auto_scroll then
            (case LiveDataStore_get_latest_timestamp store of
               None \<Rightarrow> None
             | Some t_max \<Rightarrow>
                 (let t_min = max 0 (t_max - window_sec)
                  in Some (t_min, t_min, t_min + window_sec)))
          else None)"

text \<open>
  \<open>FigureBlock.refresh_plots\<close>, the index lookup for one line: \<open>i_lo\<close> and \<open>i_hi\<close>, and
  the slice \<open>val[i_lo:i_hi]\<close> when \<open>i_hi > i_lo\<close>.
\<close>

definition visible_indices :: "real list \<Rightarrow> real \<times> real \<Rightarrow> nat \<times> nat" where
  "visible_indices t visible_t_range =
     (searchsorted_left t (fst visible_t_range), searchsorted_right t (snd visible_t_range))"

definition visible_slice :: "real list \<Rightarrow> real list \<Rightarrow> real \<times> real \<Rightarrow> real list option" where
  "visible_slice t val visible_t_range =
     (if length t > 0 then
        (case visible_indices t visible_t_range of
           (i_lo, i_hi) \<Rightarrow> if i_hi > i_lo then Some (slice_between val i_lo i_hi) else None)
      else None)"

text \<open>
  The loop of \<open>refresh_plots\<close> over the signals of the visible lines. The accumulator is
  \<open>None\<close> while \<open>has_data\<close> is false (\<open>y_lo = inf\<close>, \<open>y_hi = -inf\<close>).
\<close>

fun refresh_plots ::
  "LiveDataStore \<Rightarrow> (real \<times> real) option \<Rightarrow> string list \<Rightarrow> (real \<times> real) option
     \<Rightarrow> (real \<times> real) option" where
  "refresh_plots store visible_t_range [] acc =
     (case visible_t_range of None \<Rightarrow> None | Some r \<Rightarrow> acc)"
| "refresh_plots store visible_t_range (sig_name # rest) acc =
     (case LiveDataStore_get_arrays store sig_name of
        None \<Rightarrow> refresh_plots store visible_t_range rest acc
      | Some (t, val) \<Rightarrow>
          (case visible_t_range of
             None \<Rightarrow> refresh_plots store visible_t_range rest acc
           | Some r \<Rightarrow>
               (case visible_slice t val r of
                  None \<Rightarrow> refresh_plots store visible_t_range rest acc
                | Some vis \<Rightarrow>
                    refresh_plots store visible_t_range rest
                      (case acc of
                         None \<Rightarrow> Some (np_min vis, np_max vis)
                       | Some (y_lo, y_hi) \<Rightarrow>
                           Some (min y_lo (np_min vis), max y_hi (np_max vis))))))"

section \<open>Invariants and specification-level notions\<close>

text \<open>
  \<open>ring_holds C arr ys\<close>: an array of length \<open>C\<close> written round-robin with the sequence
  \<open>ys\<close> holds \<open>ys\<close> as a prefix while it is not full, and afterwards the last \<open>C\<close>
  elements of \<open>ys\<close>, the oldest at index \<open>length ys mod C\<close>.
\<close>

definition ring_holds :: "nat \<Rightarrow> 'a list \<Rightarrow> 'a list \<Rightarrow> bool" where
  "ring_holds C arr ys \<longleftrightarrow>
     length arr = C \<and>
     (if length ys < C then take (length ys) arr = ys
      else drop (length ys mod C) arr @ take (length ys mod C) arr = drop (length ys - C) ys)"

text \<open>\<open>buf_holds c hist b\<close>: \<open>b\<close> is a buffer of capacity \<open>c\<close> after the appends \<open>hist\<close>.\<close>

definition buf_holds :: "int \<Rightarrow> (real \<times> real) list \<Rightarrow> CircularBuffer \<Rightarrow> bool" where
  "buf_holds c hist b \<longleftrightarrow>
     cb_capacity b = c \<and>
     cb_head b = int (length hist mod nat c) \<and>
     cb_count b = int (min (length hist) (nat c)) \<and>
     ring_holds (nat c) (cb_t b) (map fst hist) \<and>
     ring_holds (nat c) (cb_val b) (map snd hist)"

text \<open>The last \<open>c\<close> elements of a list.\<close>

definition last_n :: "int \<Rightarrow> 'a list \<Rightarrow> 'a list" where
  "last_n c xs = drop (length xs - nat c) xs"

text \<open>
  The samples of one channel among a sequence of \<open>append\<close> calls, and the relative
  times of all of them, for a clock origin \<open>z\<close>.
\<close>

definition rel_samples ::
  "real \<Rightarrow> (string \<times> real \<times> real) list \<Rightarrow> string \<Rightarrow> (real \<times> real) list" where
  "rel_samples z hist name =
     map (\<lambda>(n, t, v). (t - z, v)) (filter (\<lambda>(n, t, v). n = name) hist)"

definition rel_times :: "real \<Rightarrow> (string \<times> real \<times> real) list \<Rightarrow> real list" where
  "rel_times z hist = map (\<lambda>(n, t, v). t - z) hist"

text \<open>\<open>store_holds c z hist s\<close>: \<open>s\<close> is a store of capacity \<open>c\<close> after the calls \<open>hist\<close>.\<close>

definition store_holds ::
  "int \<Rightarrow> real \<Rightarrow> (string \<times> real \<times> real) list \<Rightarrow> LiveDataStore \<Rightarrow> bool" where
  "store_holds c z hist s \<longleftrightarrow>
     buffer_capacity s = c \<and>
     (hist = [] \<longrightarrow> t0 s = None \<and> latest_t s = None) \<and>
     (hist \<noteq> [] \<longrightarrow> t0 s = Some z \<and> z = fst (snd (hd hist)) \<and>
        latest_t s = Some (Max (set (rel_times z hist)))) \<and>
     (\<forall>name. case buffers s name of
         None \<Rightarrow> name \<notin> fst ` set hist
       | Some b \<Rightarrow> name \<in> fst ` set hist \<and> buf_holds c (rel_samples z hist name) b)"

text \<open>
  \<open>store_wf s\<close>: the capacity is at least 1 and every buffer of the store is one that
  appends to a fresh buffer of that capacity produce.
\<close>

definition store_wf :: "LiveDataStore \<Rightarrow> bool" where
  "store_wf s \<longleftrightarrow>
     1 \<le> buffer_capacity s \<and>
     (\<forall>name b. buffers s name = Some b \<longrightarrow> (\<exists>hist. buf_holds (buffer_capacity s) hist b))"

text \<open>The first index of a list at which a predicate holds, the length when there is none.\<close>

definition first_index :: "('a \<Rightarrow> bool) \<Rightarrow> 'a list \<Rightarrow> nat" where
  "first_index P xs = length (takeWhile (\<lambda>x. \<not> P x) xs)"

text \<open>A memory whose fresh allocations read as zero, for the concrete scenarios.\<close>

definition zero_mem :: "nat \<Rightarrow> real" where
  "zero_mem i = 0"

text \<open>
  A schema, a callback that never raises and a listener for the concrete scenarios: ids 1
  and 2 decode to the signals A, B and B, C; decoding id 3 raises \<open>KeyError\<close> and id 4
  \<open>DecodeError\<close>; id 5 decodes to A and a value B that \<open>float()\<close> rejects; every other
  id is unknown to the schema.
\<close>

definition scenario_db :: database where
  "scenario_db =
     [1 \<mapsto> (\<lambda>d. Inr [(''A'', Number 1), (''B'', Number 2)]),
      2 \<mapsto> (\<lambda>d. Inr [(''B'', Number 3), (''C'', Number 4)]),
      3 \<mapsto> (\<lambda>d. Inl KeyError),
      4 \<mapsto> (\<lambda>d. Inl DecodeError),
      5 \<mapsto> (\<lambda>d. Inr [(''A'', Number 1), (''B'', NonNumeric)])]"

definition quiet_callback :: "string list \<Rightarrow> exn option" where
  "quiet_callback names = None"

definition scenario_listener :: DecoderListener where
  "scenario_listener =
     DecoderListener_init scenario_db (LiveDataStore_init 5) (Some quiet_callback)"

definition frame :: "int \<Rightarrow> real \<Rightarrow> Message" where
  "frame i ts = \<lparr>arbitration_id = i, data = [], timestamp = ts\<rparr>"



text \<open>One channel sampled at \<open>t = 0, 1, \<dots>, 99\<close>, the value equal to the time.\<close>

definition hundred_samples :: "(string \<times> real \<times> real) list" where
  "hundred_samples = map (\<lambda>i. (''speed'', real i, real i)) [0..<100]"

section \<open>The ring buffer holds the last appends\<close>

lemma rot_step_inner:
  assumes "Suc h < length arr"
  shows "drop (Suc h) (arr[h := y]) @ take (Suc h) (arr[h := y]) = tl (drop h arr @ take h arr) @ [y]"
proof -
  have h: "h < length arr" using assms by simp
  have "take (Suc h) (arr[h := y]) = take h arr @ [y]"
    using h by (simp add: take_Suc_conv_app_nth)
  moreover have "drop (Suc h) (arr[h := y]) = drop (Suc h) arr" by simp
  moreover have "tl (drop h arr @ take h arr) = drop (Suc h) arr @ take h arr"
    using h by (simp add: drop_Suc tl_drop Cons_nth_drop_Suc[symmetric])
  ultimately show ?thesis by simp
qed

lemma rot_step_wrap:
  assumes "Suc h = length arr"
  shows "arr[h := y] = tl (drop h arr @ take h arr) @ [y]"
proof -
  have h: "h < length arr" using assms by simp
  have "drop h arr = [arr ! h]" using assms
    by (metis Cons_nth_drop_Suc drop_all h le_refl)
  moreover have "arr[h := y] = take h arr @ [y]"
    using assms h by (simp add: upd_conv_take_nth_drop)
  ultimately show ?thesis by simp
qed

lemma ring_holds_step:
  assumes "ring_holds C arr ys" and "0 < C"
  shows "ring_holds C (arr[length ys mod C := y]) (ys @ [y])"
proof -
  let ?n = "length ys"
  let ?h = "?n mod C"
  have len: "length arr = C" using assms(1) by (simp add: ring_holds_def)
  have hlt: "?h < C" using assms(2) by simp
  show ?thesis
  proof (cases "?n < C")
    case True
    then have old: "take ?n arr = ys" using assms(1) by (simp add: ring_holds_def)
    have hn: "?h = ?n" using True by simp
    have upd: "take (Suc ?n) (arr[?n := y]) = ys @ [y]"
      using True len old by (simp add: take_Suc_conv_app_nth)
    show ?thesis
    proof (cases "Suc ?n < C")
      case True
      then show ?thesis using upd len hn by (simp add: ring_holds_def)
    next
      case False
      then have eq: "Suc ?n = C" using True by simp
      then have "arr[?n := y] = ys @ [y]" using upd len by simp
      then show ?thesis using eq len hn by (simp add: ring_holds_def)
    qed
  next
    case False
    then have old: "drop ?h arr @ take ?h arr = drop (?n - C) ys"
      using assms(1) by (simp add: ring_holds_def)
    have tgt: "drop (Suc ?n - C) (ys @ [y]) = tl (drop (?n - C) ys) @ [y]"
      using False assms(2) by (simp add: Suc_diff_le drop_Suc tl_drop)
    have new: "drop (Suc ?n mod C) (arr[?h := y]) @ take (Suc ?n mod C) (arr[?h := y])
                = tl (drop ?h arr @ take ?h arr) @ [y]"
    proof (cases "Suc ?h < C")
      case True
      then show ?thesis using rot_step_inner[of ?h arr y] len by (simp add: mod_Suc)
    next
      case False
      then have "Suc ?h = length arr" using hlt len by simp
      then show ?thesis using rot_step_wrap[of ?h arr y] len by (simp add: mod_Suc)
    qed
    show ?thesis using False new old tgt len by (simp add: ring_holds_def)
  qed
qed

lemma ring_holds_snapshot_full:
  assumes "ring_holds C arr ys" and "C \<le> length ys"
  shows "drop (length ys mod C) arr @ take (length ys mod C) arr = drop (length ys - C) ys"
  using assms by (simp add: ring_holds_def)

lemma ring_holds_snapshot_part:
  assumes "ring_holds C arr ys" and "length ys < C"
  shows "take (length ys) arr = ys"
  using assms by (simp add: ring_holds_def)

lemma ring_holds_fresh: "ring_holds C (map f [0..<C]) []"
  by (simp add: ring_holds_def)

lemma buf_holds_init:
  assumes "0 \<le> c"
  shows "\<exists>b. CircularBuffer_init mem c = Inr b \<and> buf_holds c [] b"
  using assms by (simp add: CircularBuffer_init_def np_empty_def buf_holds_def ring_holds_fresh)

lemma np_setitem_in_range:
  assumes "h < length a"
  shows "np_setitem a (int h) v = Inr (a[h := v])"
  using assms by (simp add: np_setitem_def)

lemma buf_holds_append:
  assumes c: "1 \<le> c" and inv: "buf_holds c hist b"
  shows "\<exists>b'. CircularBuffer_append b t v = (None, b') \<and> buf_holds c (hist @ [(t, v)]) b'"
proof -
  let ?C = "nat c"
  let ?n = "length hist"
  let ?h = "?n mod ?C"
  have C: "0 < ?C" using c by simp
  have cap: "cb_capacity b = c" and hd: "cb_head b = int ?h"
    and cnt: "cb_count b = int (min ?n ?C)"
    and rt: "ring_holds ?C (cb_t b) (map fst hist)"
    and rv: "ring_holds ?C (cb_val b) (map snd hist)"
    using inv by (simp_all add: buf_holds_def)
  have lt: "length (cb_t b) = ?C" and lv: "length (cb_val b) = ?C"
    using rt rv by (simp_all add: ring_holds_def)
  have hlt: "?h < ?C" using C by simp
  have st: "np_setitem (cb_t b) (cb_head b) t = Inr ((cb_t b)[?h := t])"
    using hlt lt hd by (simp add: np_setitem_in_range)
  have sv: "np_setitem (cb_val b) (cb_head b) v = Inr ((cb_val b)[?h := v])"
    using hlt lv hd by (simp add: np_setitem_in_range)
  have rt': "ring_holds ?C ((cb_t b)[?h := t]) (map fst (hist @ [(t, v)]))"
    using ring_holds_step[OF rt C, of t] by simp
  have rv': "ring_holds ?C ((cb_val b)[?h := v]) (map snd (hist @ [(t, v)]))"
    using ring_holds_step[OF rv C, of v] by simp
  have hd': "(int ?h + 1) mod c = int (Suc ?n mod ?C)"
  proof -
    have "int (Suc ?n mod ?C) = (int ?n + 1) mod int ?C"
      by (simp add: zmod_int add.commute)
    also have "\<dots> = (int ?n mod int ?C + 1) mod int ?C"
      by (simp add: mod_add_left_eq)
    also have "int ?n mod int ?C = int ?h" by (simp add: zmod_int)
    finally show ?thesis using c by simp
  qed
  show ?thesis
  proof (cases "?n < ?C")
    case True
    then have "cb_count b < c" using cnt c by simp
    then show ?thesis
      using st sv cap hd cnt c rt' rv' hd' True
      by (simp add: CircularBuffer_append_def Let_def buf_holds_def min_def)
  next
    case False
    then have "\<not> cb_count b < c" using cnt c by simp
    then show ?thesis
      using st sv cap hd cnt c rt' rv' hd' False
      by (simp add: CircularBuffer_append_def Let_def buf_holds_def min_def)
  qed
qed

lemma buf_holds_appends:
  assumes "1 \<le> c"
  shows "buf_holds c hist b \<Longrightarrow>
     \<exists>b'. CircularBuffer_appends b xs = (None, b') \<and> buf_holds c (hist @ xs) b'"
proof (induction xs arbitrary: b hist)
  case Nil
  then show ?case by simp
next
  case (Cons x xs)
  obtain t v where x: "x = (t, v)" by (cases x)
  from buf_holds_append[OF assms Cons.prems, of t v]
  obtain b1 where b1: "CircularBuffer_append b t v = (None, b1)"
    and h1: "buf_holds c (hist @ [(t, v)]) b1" by blast
  from Cons.IH[OF h1] show ?case using b1 x by simp
qed

lemma buf_holds_get_arrays:
  assumes c: "1 \<le> c" and inv: "buf_holds c hist b"
  shows "CircularBuffer_get_arrays b =
           (map fst (drop (length hist - nat c) hist), map snd (drop (length hist - nat c) hist))"
proof -
  let ?C = "nat c"
  let ?n = "length hist"
  have cap: "cb_capacity b = c" and hd: "cb_head b = int (?n mod ?C)"
    and cnt: "cb_count b = int (min ?n ?C)"
    and rt: "ring_holds ?C (cb_t b) (map fst hist)"
    and rv: "ring_holds ?C (cb_val b) (map snd hist)"
    using inv by (simp_all add: buf_holds_def)
  show ?thesis
  proof (cases "?n < ?C")
    case True
    have "take ?n (cb_t b) = map fst hist" "take ?n (cb_val b) = map snd hist"
      using ring_holds_snapshot_part[OF rt] ring_holds_snapshot_part[OF rv] True by simp_all
    moreover have "cb_count b < cb_capacity b" using True cap cnt c by simp
    ultimately show ?thesis using True cnt
      by (cases "hist = []") (simp_all add: CircularBuffer_get_arrays_def slice_to_def min_def)
  next
    case False
    then have full: "?C \<le> ?n" by simp
    have "drop (?n mod ?C) (cb_t b) @ take (?n mod ?C) (cb_t b) = drop (?n - ?C) (map fst hist)"
      "drop (?n mod ?C) (cb_val b) @ take (?n mod ?C) (cb_val b) = drop (?n - ?C) (map snd hist)"
      using ring_holds_snapshot_full[OF rt] ring_holds_snapshot_full[OF rv] full by simp_all
    moreover have "cb_count b \<noteq> 0" "\<not> cb_count b < cb_capacity b"
      using cnt cap c full by simp_all
    ultimately show ?thesis using hd
      by (simp add: CircularBuffer_get_arrays_def slice_to_def slice_from_def drop_map)
  qed
qed

section \<open>The store after a sequence of appends\<close>

lemma rel_samples_snoc:
  "rel_samples z (hist @ [(n, t, v)]) name =
     (if n = name then rel_samples z hist name @ [(t - z, v)] else rel_samples z hist name)"
  by (simp add: rel_samples_def)

lemma rel_samples_absent:
  "name \<notin> fst ` set hist \<Longrightarrow> rel_samples z hist name = []"
  by (force simp: rel_samples_def filter_empty_conv)

lemma Max_rel_times_snoc:
  assumes "hist \<noteq> []"
  shows "Max (set (rel_times z (hist @ [(n, t, v)]))) = max (t - z) (Max (set (rel_times z hist)))"
proof -
  have "set (rel_times z hist) \<noteq> {}" using assms by (simp add: rel_times_def)
  then show ?thesis by (simp add: rel_times_def)
qed

lemma store_holds_append:
  assumes c: "1 \<le> c" and inv: "store_holds c z hist s" and z: "hist = [] \<Longrightarrow> z = ts"
  shows "\<exists>s'. LiveDataStore_append mem s n ts v = (None, s') \<and>
               store_holds c z (hist @ [(n, ts, v)]) s'"
proof -
  have cap: "buffer_capacity s = c" using inv by (simp add: store_holds_def)
  have bufs: "\<And>name. case buffers s name of
         None \<Rightarrow> name \<notin> fst ` set hist
       | Some b \<Rightarrow> name \<in> fst ` set hist \<and> buf_holds c (rel_samples z hist name) b"
    using inv by (simp add: store_holds_def)
  define s2 where "s2 = s\<lparr>t0 := Some z,
      latest_t := Some (Max (set (rel_times z (hist @ [(n, ts, v)]))))\<rparr>"
  have step: "LiveDataStore_append mem s n ts v =
      (case buffers s2 n of
           Some b \<Rightarrow> buffer_append_in_store s2 n b (ts - z) v
         | None \<Rightarrow>
             (case CircularBuffer_init mem (buffer_capacity s2) of
                Inl e \<Rightarrow> (Some e, s2)
              | Inr b \<Rightarrow>
                  buffer_append_in_store
                    (s2\<lparr>buffers := (buffers s2)(n \<mapsto> b)\<rparr>) n b (ts - z) v))"
  proof (cases "hist = []")
    case True
    then have "t0 s = None" "latest_t s = None" "z = ts"
      using inv z by (simp_all add: store_holds_def)
    then show ?thesis using True
      by (simp add: LiveDataStore_append_def Let_def s2_def rel_times_def
            cong: option.case_cong sum.case_cong)
  next
    case False
    then have "t0 s = Some z" "latest_t s = Some (Max (set (rel_times z hist)))"
      using inv by (simp_all add: store_holds_def)
    then show ?thesis using Max_rel_times_snoc[OF False, of z n ts v]
      by (cases s) (simp add: LiveDataStore_append_def Let_def s2_def max_def
            cong: option.case_cong sum.case_cong)
  qed
  have s2b: "buffers s2 = buffers s" and s2c: "buffer_capacity s2 = c"
    using cap by (simp_all add: s2_def)
  obtain b0 where b0: "(case buffers s n of Some b \<Rightarrow> b0 = b
                        | None \<Rightarrow> CircularBuffer_init mem c = Inr b0)"
    and h0: "buf_holds c (rel_samples z hist n) b0"
  proof (cases "buffers s n")
    case None
    then have "n \<notin> fst ` set hist" using bufs[of n] by simp
    then have "rel_samples z hist n = []" by (rule rel_samples_absent)
    moreover obtain b where "CircularBuffer_init mem c = Inr b" "buf_holds c [] b"
      using buf_holds_init[of c mem] c by auto
    ultimately show ?thesis using that None by simp
  next
    case (Some b)
    then show ?thesis using that bufs[of n] by simp
  qed
  obtain b' where b': "CircularBuffer_append b0 (ts - z) v = (None, b')"
    and h': "buf_holds c (rel_samples z hist n @ [(ts - z, v)]) b'"
    using buf_holds_append[OF c h0] by blast
  define s' where "s' = s2\<lparr>buffers := (buffers s)(n \<mapsto> b')\<rparr>"
  have res: "LiveDataStore_append mem s n ts v = (None, s')"
    using b0 b' by (cases "buffers s n")
      (simp_all add: step s2b s2c buffer_append_in_store_def s'_def)
  have "store_holds c z (hist @ [(n, ts, v)]) s'"
    unfolding store_holds_def
  proof (intro conjI allI)
    show "buffer_capacity s' = c" using s2c by (simp add: s'_def)
    show "hist @ [(n, ts, v)] = [] \<longrightarrow> t0 s' = None \<and> latest_t s' = None" by simp
    show "hist @ [(n, ts, v)] \<noteq> [] \<longrightarrow> t0 s' = Some z \<and>
        z = fst (snd (hd (hist @ [(n, ts, v)]))) \<and>
        latest_t s' = Some (Max (set (rel_times z (hist @ [(n, ts, v)]))))"
      using inv z by (cases "hist = []") (simp_all add: s'_def s2_def store_holds_def)
    fix name
    show "case buffers s' name of
         None \<Rightarrow> name \<notin> fst ` set (hist @ [(n, ts, v)])
       | Some b \<Rightarrow> name \<in> fst ` set (hist @ [(n, ts, v)]) \<and>
                  buf_holds c (rel_samples z (hist @ [(n, ts, v)]) name) b"
    proof (cases "name = n")
      case True
      then show ?thesis using h' by (simp add: s'_def rel_samples_snoc)
    next
      case False
      then show ?thesis using bufs[of name]
        by (simp add: s'_def rel_samples_snoc split: option.splits)
    qed
  qed
  with res show ?thesis by blast
qed

lemma store_holds_appends:
  assumes c: "1 \<le> c"
  shows "store_holds c z hist s \<Longrightarrow> (hist = [] \<Longrightarrow> xs \<noteq> [] \<Longrightarrow> z = fst (snd (hd xs))) \<Longrightarrow>
     \<exists>s'. LiveDataStore_appends mem s xs = (None, s') \<and> store_holds c z (hist @ xs) s'"
proof (induction xs arbitrary: s hist)
  case Nil
  then show ?case by simp
next
  case (Cons x xs)
  obtain n ts v where x: "x = (n, ts, v)" by (cases x)
  have "hist = [] \<Longrightarrow> z = ts" using Cons.prems(2) x by simp
  from store_holds_append[OF c Cons.prems(1) this, of mem n v]
  obtain s1 where s1: "LiveDataStore_append mem s n ts v = (None, s1)"
    and h1: "store_holds c z (hist @ [(n, ts, v)]) s1" by blast
  from Cons.IH[OF h1] show ?case using s1 x by simp
qed

lemma store_holds_fresh:
  "store_holds c z [] \<lparr>buffers = Map.empty, buffer_capacity = c, t0 = None, latest_t = None\<rparr>"
  by (simp add: store_holds_def)

lemma store_holds_buffers:
  "store_holds c z hist s \<Longrightarrow>
     (case buffers s name of
         None \<Rightarrow> name \<notin> fst ` set hist
       | Some b \<Rightarrow> name \<in> fst ` set hist \<and> buf_holds c (rel_samples z hist name) b)"
  by (simp add: store_holds_def)

lemma store_holds_get_arrays:
  assumes c: "1 \<le> c" and inv: "store_holds c z hist s"
  shows "LiveDataStore_get_arrays s name =
     (if name \<in> fst ` set hist
      then Some (map fst (drop (length (rel_samples z hist name) - nat c) (rel_samples z hist name)),
                 map snd (drop (length (rel_samples z hist name) - nat c) (rel_samples z hist name)))
      else None)"
proof (cases "buffers s name")
  case None
  then show ?thesis using store_holds_buffers[OF inv, of name]
    by (simp add: LiveDataStore_get_arrays_def)
next
  case (Some b)
  then have "name \<in> fst ` set hist" and h: "buf_holds c (rel_samples z hist name) b"
    using store_holds_buffers[OF inv, of name] by simp_all
  then show ?thesis using Some buf_holds_get_arrays[OF c h]
    by (simp add: LiveDataStore_get_arrays_def)
qed

lemma fresh_or_cleared:
  assumes "s = LiveDataStore_init c \<or> (\<exists>s0. s = LiveDataStore_clear s0 \<and> buffer_capacity s0 = c)"
  shows "s = \<lparr>buffers = Map.empty, buffer_capacity = c, t0 = None, latest_t = None\<rparr>"
  using assms
proof
  assume "s = LiveDataStore_init c"
  then show ?thesis by (simp add: LiveDataStore_init_def)
next
  assume "\<exists>s0. s = LiveDataStore_clear s0 \<and> buffer_capacity s0 = c"
  then obtain s0 where "s = LiveDataStore_clear s0" "buffer_capacity s0 = c" by blast
  then show ?thesis by (cases s0) (simp add: LiveDataStore_clear_def)
qed

lemma session_holds:
  assumes c: "1 \<le> c"
    and s: "s = LiveDataStore_init c \<or> (\<exists>s0. s = LiveDataStore_clear s0 \<and> buffer_capacity s0 = c)"
    and z: "xs \<noteq> [] \<Longrightarrow> z = fst (snd (hd xs))"
  shows "\<exists>s'. LiveDataStore_appends mem s xs = (None, s') \<and> store_holds c z xs s'"
proof -
  have "store_holds c z [] s"
    using fresh_or_cleared[OF s] store_holds_fresh[of c z] by simp
  from store_holds_appends[OF c this, of xs mem] z show ?thesis by simp
qed

lemma last_n_snoc_last:
  assumes "1 \<le> c"
  shows "last_n c (xs @ [x]) \<noteq> [] \<and> last (last_n c (xs @ [x])) = x"
  using assms by (simp add: last_n_def)

lemma rel_samples_last:
  assumes "hist \<noteq> []" and "last hist = (n, ts, v)"
  shows "\<exists>ys. rel_samples z hist n = ys @ [(ts - z, v)]"
proof -
  obtain h where "hist = h @ [(n, ts, v)]" using assms by (metis append_butlast_last_id)
  then show ?thesis by (simp add: rel_samples_snoc)
qed

lemma append_latest_mono:
  assumes "LiveDataStore_append mem s n ts v = (r, s')" and "latest_t s = Some l"
  shows "\<exists>l'. latest_t s' = Some l' \<and> l \<le> l'"
  using assms
  by (cases s) (auto simp: LiveDataStore_append_def Let_def buffer_append_in_store_def
      split: option.splits sum.splits prod.splits if_splits)

section \<open>Binary search on a sorted array\<close>

declare binsearch_left.simps [simp del] binsearch_right.simps [simp del]

lemma binsearch_left_bounds:
  "sorted a \<Longrightarrow> lo \<le> hi \<Longrightarrow> hi \<le> length a \<Longrightarrow>
   (\<forall>i < lo. a ! i < v) \<Longrightarrow> (\<forall>i. hi \<le> i \<and> i < length a \<longrightarrow> v \<le> a ! i) \<Longrightarrow>
   binsearch_left a v lo hi \<le> length a \<and>
   (\<forall>i < binsearch_left a v lo hi. a ! i < v) \<and>
   (\<forall>i. binsearch_left a v lo hi \<le> i \<and> i < length a \<longrightarrow> v \<le> a ! i)"
proof (induction a v lo hi rule: binsearch_left.induct)
  case (1 a v lo hi)
  show ?case
  proof (cases "lo < hi")
    case False
    then have "binsearch_left a v lo hi = lo" by (simp add: binsearch_left.simps)
    moreover have "lo = hi" using False "1.prems"(2) by simp
    ultimately show ?thesis using "1.prems" by simp
  next
    case True
    define mid where "mid = lo + (hi - lo) div 2"
    have mid: "lo \<le> mid" "mid < hi" using True by (simp_all add: mid_def) 
    show ?thesis
    proof (cases "a ! mid < v")
      case lt: True
      have eq: "binsearch_left a v lo hi = binsearch_left a v (mid + 1) hi"
        using True lt by (subst binsearch_left.simps) (simp add: mid_def Let_def)
      have below: "\<forall>i < mid + 1. a ! i < v"
      proof (intro allI impI)
        fix i assume "i < mid + 1"
        then have "i \<le> mid" by simp
        moreover have "mid < length a" using mid "1.prems"(3) by simp
        ultimately have "a ! i \<le> a ! mid" using "1.prems"(1) by (simp add: sorted_nth_mono)
        then show "a ! i < v" using lt by simp
      qed
      show ?thesis unfolding eq
        using "1.IH"(1)[OF True mid_def lt "1.prems"(1) _ "1.prems"(3) below "1.prems"(5)] mid
        by simp
    next
      case ge: False
      have eq: "binsearch_left a v lo hi = binsearch_left a v lo mid"
        using True ge by (subst binsearch_left.simps) (simp add: mid_def Let_def)
      have above: "\<forall>i. mid \<le> i \<and> i < length a \<longrightarrow> v \<le> a ! i"
      proof (intro allI impI)
        fix i assume "mid \<le> i \<and> i < length a"
        then have "a ! mid \<le> a ! i" using "1.prems"(1) by (simp add: sorted_nth_mono)
        then show "v \<le> a ! i" using ge by simp
      qed
      have "mid \<le> length a" using mid "1.prems"(3) by simp
      show ?thesis unfolding eq
        using "1.IH"(2)[OF True mid_def ge "1.prems"(1) mid(1) \<open>mid \<le> length a\<close> "1.prems"(4) above]
        by simp
    qed
  qed
qed

lemma binsearch_right_bounds:
  "sorted a \<Longrightarrow> lo \<le> hi \<Longrightarrow> hi \<le> length a \<Longrightarrow>
   (\<forall>i < lo. a ! i \<le> v) \<Longrightarrow> (\<forall>i. hi \<le> i \<and> i < length a \<longrightarrow> v < a ! i) \<Longrightarrow>
   binsearch_right a v lo hi \<le> length a \<and>
   (\<forall>i < binsearch_right a v lo hi. a ! i \<le> v) \<and>
   (\<forall>i. binsearch_right a v lo hi \<le> i \<and> i < length a \<longrightarrow> v < a ! i)"
proof (induction a v lo hi rule: binsearch_right.induct)
  case (1 a v lo hi)
  show ?case
  proof (cases "lo < hi")
    case False
    then have "binsearch_right a v lo hi = lo" by (simp add: binsearch_right.simps)
    moreover have "lo = hi" using False "1.prems"(2) by simp
    ultimately show ?thesis using "1.prems" by simp
  next
    case True
    define mid where "mid = lo + (hi - lo) div 2"
    have mid: "lo \<le> mid" "mid < hi" using True by (simp_all add: mid_def) 
    show ?thesis
    proof (cases "a ! mid \<le> v")
      case le: True
      have eq: "binsearch_right a v lo hi = binsearch_right a v (mid + 1) hi"
        using True le by (subst binsearch_right.simps) (simp add: mid_def Let_def)
      have below: "\<forall>i < mid + 1. a ! i \<le> v"
      proof (intro allI impI)
        fix i assume "i < mid + 1"
        then have "i \<le> mid" by simp
        moreover have "mid < length a" using mid "1.prems"(3) by simp
        ultimately have "a ! i \<le> a ! mid" using "1.prems"(1) by (simp add: sorted_nth_mono)
        then show "a ! i \<le> v" using le by simp
      qed
      show ?thesis unfolding eq
        using "1.IH"(1)[OF True mid_def le "1.prems"(1) _ "1.prems"(3) below "1.prems"(5)] mid
        by simp
    next
      case gt: False
      have eq: "binsearch_right a v lo hi = binsearch_right a v lo mid"
        using True gt by (subst binsearch_right.simps) (simp add: mid_def Let_def)
      have above: "\<forall>i. mid \<le> i \<and> i < length a \<longrightarrow> v < a ! i"
      proof (intro allI impI)
        fix i assume "mid \<le> i \<and> i < length a"
        then have "a ! mid \<le> a ! i" using "1.prems"(1) by (simp add: sorted_nth_mono)
        then show "v < a ! i" using gt by simp
      qed
      have "mid \<le> length a" using mid "1.prems"(3) by simp
      show ?thesis unfolding eq
        using "1.IH"(2)[OF True mid_def gt "1.prems"(1) mid(1) \<open>mid \<le> length a\<close> "1.prems"(4) above]
        by simp
    qed
  qed
qed

lemma first_index_eqI:
  assumes "r \<le> length xs" and "\<forall>i < r. \<not> P (xs ! i)" and "\<forall>i. r \<le> i \<and> i < length xs \<longrightarrow> P (xs ! i)"
  shows "first_index P xs = r"
proof -
  have "takeWhile (\<lambda>x. \<not> P x) xs = take r xs"
    using assms by (intro takeWhile_eq_take_P_nth) auto
  then show ?thesis using assms(1) by (simp add: first_index_def)
qed

lemma searchsorted_left_first_index:
  assumes "sorted a"
  shows "searchsorted_left a v = first_index (\<lambda>x. v \<le> x) a"
proof -
  have b: "searchsorted_left a v \<le> length a \<and>
   (\<forall>i < searchsorted_left a v. a ! i < v) \<and>
   (\<forall>i. searchsorted_left a v \<le> i \<and> i < length a \<longrightarrow> v \<le> a ! i)"
    unfolding searchsorted_left_def using binsearch_left_bounds[OF assms, of 0 "length a" v] by simp
  show ?thesis
    by (rule first_index_eqI[symmetric]) (use b in \<open>auto simp: not_le\<close>)
qed

lemma searchsorted_right_first_index:
  assumes "sorted a"
  shows "searchsorted_right a v = first_index (\<lambda>x. v < x) a"
proof -
  have b: "searchsorted_right a v \<le> length a \<and>
   (\<forall>i < searchsorted_right a v. a ! i \<le> v) \<and>
   (\<forall>i. searchsorted_right a v \<le> i \<and> i < length a \<longrightarrow> v < a ! i)"
    unfolding searchsorted_right_def using binsearch_right_bounds[OF assms, of 0 "length a" v] by simp
  show ?thesis
    by (rule first_index_eqI[symmetric]) (use b in \<open>auto simp: not_less\<close>)
qed

lemma first_index_le_length: "first_index P xs \<le> length xs"
  by (simp add: first_index_def length_takeWhile_le)

lemma first_index_before: "i < first_index P xs \<Longrightarrow> \<not> P (xs ! i)"
  unfolding first_index_def using nth_length_takeWhile
  by (metis (mono_tags, lifting) nth_mem set_takeWhileD takeWhile_nth)

lemma first_index_mono_after:
  assumes "sorted (xs :: real list)" and "first_index (\<lambda>x. v \<le> x) xs \<le> i" and "i < length xs"
  shows "v \<le> xs ! i"
proof -
  let ?r = "first_index (\<lambda>x. v \<le> x) xs"
  have "?r < length xs" using assms by simp
  then have "v \<le> xs ! ?r"
    unfolding first_index_def using nth_length_takeWhile[of "\<lambda>x. \<not> v \<le> x" xs] by simp
  moreover have "xs ! ?r \<le> xs ! i" using assms by (simp add: sorted_nth_mono)
  ultimately show ?thesis by simp
qed

lemma first_index_mono_after_strict:
  assumes "sorted (xs :: real list)" and "first_index (\<lambda>x. v < x) xs \<le> i" and "i < length xs"
  shows "v < xs ! i"
proof -
  let ?r = "first_index (\<lambda>x. v < x) xs"
  have "?r < length xs" using assms by simp
  then have "v < xs ! ?r"
    unfolding first_index_def using nth_length_takeWhile[of "\<lambda>x. \<not> v < x" xs] by simp
  moreover have "xs ! ?r \<le> xs ! i" using assms by (simp add: sorted_nth_mono)
  ultimately show ?thesis by simp
qed

lemma filter_index_range:
  assumes "hi \<le> length zs" and "\<forall>i < length zs. P (zs ! i) \<longleftrightarrow> lo \<le> i \<and> i < hi"
  shows "filter P zs = take (hi - lo) (drop lo zs)"
proof (cases "lo \<le> hi")
  case False
  then have "\<forall>i < length zs. \<not> P (zs ! i)" using assms(2) by auto
  then have "filter P zs = []" by (auto simp: filter_empty_conv in_set_conv_nth)
  then show ?thesis using False by simp
next
  case True
  have split: "zs = take lo zs @ take (hi - lo) (drop lo zs) @ drop hi zs"
    using True by (metis append_take_drop_id drop_drop le_add_diff_inverse2 add.commute)
  have a: "filter P (take lo zs) = []"
    using assms True by (auto simp: filter_empty_conv in_set_conv_nth)
  have b: "filter P (drop hi zs) = []"
    using assms True by (auto simp: filter_empty_conv in_set_conv_nth)
  have c: "filter P (take (hi - lo) (drop lo zs)) = take (hi - lo) (drop lo zs)"
    using assms True by (auto simp: filter_id_conv in_set_conv_nth)
  have "filter P zs = filter P (take lo zs) @ filter P (take (hi - lo) (drop lo zs)) @ filter P (drop hi zs)"
    by (subst split) simp
  then show ?thesis using a b c by simp
qed


lemma visible_indices_first_index:
  assumes "sorted t"
  shows "visible_indices t (lo, hi) = (first_index (\<lambda>x. lo \<le> x) t, first_index (\<lambda>x. hi < x) t)"
  using assms
  by (simp add: visible_indices_def searchsorted_left_first_index searchsorted_right_first_index)

lemma window_index_iff:
  assumes "sorted (t :: real list)" and "i < length t"
  shows "(first_index (\<lambda>x. lo \<le> x) t \<le> i \<and> i < first_index (\<lambda>x. hi < x) t)
           \<longleftrightarrow> (lo \<le> t ! i \<and> t ! i \<le> hi)"
proof -
  have a: "first_index (\<lambda>x. lo \<le> x) t \<le> i \<longleftrightarrow> lo \<le> t ! i"
    using first_index_before[of i "\<lambda>x. lo \<le> x" t] first_index_mono_after[OF assms(1) _ assms(2), of lo]
    by (meson not_le)
  have b: "i < first_index (\<lambda>x. hi < x) t \<longleftrightarrow> t ! i \<le> hi"
    using first_index_before[of i "\<lambda>x. hi < x" t]
      first_index_mono_after_strict[OF assms(1) _ assms(2), of hi]
    by (meson not_le)
  show ?thesis using a b by simp
qed

section \<open>What one frame and a sequence of frames can change\<close>

lemma store_wf_init: "1 \<le> c \<Longrightarrow> store_wf (LiveDataStore_init c)"
  by (simp add: store_wf_def LiveDataStore_init_def)

lemma store_wf_append:
  assumes wf: "store_wf s"
  shows "\<exists>s'. LiveDataStore_append mem s n ts v = (None, s') \<and> store_wf s'"
proof -
  let ?c = "buffer_capacity s"
  have c: "1 \<le> ?c" using wf by (simp add: store_wf_def)
  define z where "z = (case t0 s of None \<Rightarrow> ts | Some z \<Rightarrow> z)"
  define s2 where "s2 = (case latest_t (s\<lparr>t0 := Some z\<rparr>) of
                  None \<Rightarrow> s\<lparr>t0 := Some z, latest_t := Some (ts - z)\<rparr>
                | Some l \<Rightarrow> if ts - z > l then s\<lparr>t0 := Some z, latest_t := Some (ts - z)\<rparr>
                            else s\<lparr>t0 := Some z\<rparr>)"
  have s2b: "buffers s2 = buffers s" and s2c: "buffer_capacity s2 = ?c"
    by (simp_all add: s2_def split: option.splits)
  have step: "LiveDataStore_append mem s n ts v =
      (case buffers s2 n of
           Some b \<Rightarrow> buffer_append_in_store s2 n b (ts - z) v
         | None \<Rightarrow>
             (case CircularBuffer_init mem (buffer_capacity s2) of
                Inl e \<Rightarrow> (Some e, s2)
              | Inr b \<Rightarrow>
                  buffer_append_in_store
                    (s2\<lparr>buffers := (buffers s2)(n \<mapsto> b)\<rparr>) n b (ts - z) v))"
    unfolding LiveDataStore_append_def Let_def z_def s2_def by (rule refl)
  obtain b0 hist where b0: "(case buffers s n of Some b \<Rightarrow> b0 = b
                        | None \<Rightarrow> CircularBuffer_init mem ?c = Inr b0)"
    and h0: "buf_holds ?c hist b0"
  proof (cases "buffers s n")
    case None
    obtain b where "CircularBuffer_init mem ?c = Inr b" "buf_holds ?c [] b"
      using buf_holds_init[of ?c mem] c by auto
    then show ?thesis using that None by simp
  next
    case (Some b)
    then obtain hist where "buf_holds ?c hist b" using wf by (auto simp: store_wf_def)
    then show ?thesis using that Some by simp
  qed
  obtain b' where b': "CircularBuffer_append b0 (ts - z) v = (None, b')"
    and h': "buf_holds ?c (hist @ [(ts - z, v)]) b'"
    using buf_holds_append[OF c h0] by blast
  define s' where "s' = s2\<lparr>buffers := (buffers s)(n \<mapsto> b')\<rparr>"
  have res: "LiveDataStore_append mem s n ts v = (None, s')"
    using b0 b' by (cases "buffers s n")
      (simp_all add: step s2b s2c buffer_append_in_store_def s'_def)
  have "store_wf s'"
    using wf h' s2c by (auto simp: store_wf_def s'_def)
  with res show ?thesis by blast
qed

lemma store_wf_appends:
  "store_wf s \<Longrightarrow> \<exists>s'. LiveDataStore_appends mem s xs = (None, s') \<and> store_wf s'"
proof (induction xs arbitrary: s)
  case Nil
  then show ?case by simp
next
  case (Cons x xs)
  obtain n ts v where x: "x = (n, ts, v)" by (cases x)
  obtain s1 where s1: "LiveDataStore_append mem s n ts v = (None, s1)" and w1: "store_wf s1"
    using store_wf_append[OF Cons.prems] by blast
  from Cons.IH[OF w1] show ?case using s1 x by simp
qed

text \<open>The loop never touches anything but the store, the first-seen set and the batch.\<close>

lemma signals_loop_frame:
  "signals_loop mem msg sigs s newly = (r, s', newly') \<Longrightarrow>
     db s' = db s \<and> new_signals_callback s' = new_signals_callback s \<and>
     no_decode s' = no_decode s \<and> logged s' = logged s \<and> db_calls s' = db_calls s \<and>
     notified s' = notified s \<and> known_signals s \<subseteq> known_signals s' \<and>
     (\<exists>extra. newly' = newly @ extra \<and> set extra \<inter> known_signals s = {} \<and>
        set extra \<subseteq> known_signals s')"
proof (induction mem msg sigs s newly rule: signals_loop.induct)
  case (1 mem msg s newly_discovered)
  then show ?case by simp
next
  case (2 mem msg signal_name v rest s newly_discovered)
  show ?case
  proof (cases "py_float v")
    case (Inl e)
    then show ?thesis using "2.prems" by auto
  next
    case (Inr x)
    obtain ro store' where ap:
      "LiveDataStore_append mem (data_store s) signal_name (timestamp msg) x = (ro, store')"
      by (cases "LiveDataStore_append mem (data_store s) signal_name (timestamp msg) x")
    show ?thesis
    proof (cases ro)
      case (Some e)
      then show ?thesis using "2.prems" Inr ap by auto
    next
      case None
      define s1 where "s1 = s\<lparr>data_store := store'\<rparr>"
      show ?thesis
      proof (cases "signal_name \<notin> known_signals s1")
        case True
        have run: "signals_loop mem msg rest
                       (s1\<lparr>known_signals := insert signal_name (known_signals s1)\<rparr>)
                       (newly_discovered @ [signal_name]) = (r, s', newly')"
          using "2.prems" Inr ap None True by (simp add: s1_def)
        from "2.IH"(1)[OF Inr ap[symmetric] None s1_def True run]
        obtain extra where e: "newly' = (newly_discovered @ [signal_name]) @ extra"
          "set extra \<inter> insert signal_name (known_signals s1) = {}"
          "set extra \<subseteq> known_signals s'"
          and rest: "db s' = db s" "new_signals_callback s' = new_signals_callback s"
            "no_decode s' = no_decode s" "logged s' = logged s" "db_calls s' = db_calls s"
            "notified s' = notified s" "insert signal_name (known_signals s1) \<subseteq> known_signals s'"
          by (auto simp: s1_def)
        have "newly' = newly_discovered @ (signal_name # extra)" using e by simp
        moreover have "set (signal_name # extra) \<inter> known_signals s = {}"
          using e True by (auto simp: s1_def)
        moreover have "set (signal_name # extra) \<subseteq> known_signals s'"
          using e rest by auto
        ultimately show ?thesis using rest by (auto simp: s1_def)
      next
        case False
        have run: "signals_loop mem msg rest s1 newly_discovered = (r, s', newly')"
          using "2.prems" Inr ap None False by (simp add: s1_def)
        from "2.IH"(2)[OF Inr ap[symmetric] None s1_def False run]
        show ?thesis by (auto simp: s1_def)
      qed
    qed
  qed
qed


lemma signals_loop_numeric:
  "store_wf (data_store s) \<Longrightarrow> distinct (map fst nums) \<Longrightarrow>
   \<exists>D. LiveDataStore_appends mem (data_store s) (map (\<lambda>(n, x). (n, timestamp msg, x)) nums) = (None, D) \<and>
       store_wf D \<and>
       signals_loop mem msg (map (\<lambda>(n, x). (n, Number x)) nums) s newly =
         (None, s\<lparr>data_store := D, known_signals := known_signals s \<union> set (map fst nums)\<rparr>,
          newly @ filter (\<lambda>n. n \<notin> known_signals s) (map fst nums))"
proof (induction nums arbitrary: s newly)
  case Nil
  then show ?case by simp
next
  case (Cons p nums)
  obtain n x where p: "p = (n, x)" by (cases p)
  obtain D1 where ap: "LiveDataStore_append mem (data_store s) n (timestamp msg) x = (None, D1)"
    and w1: "store_wf D1"
    using store_wf_append[OF Cons.prems(1)] by blast
  have d: "distinct (map fst nums)" and nn: "n \<notin> set (map fst nums)"
    using Cons.prems(2) p by simp_all
  have filt: "filter (\<lambda>m. m \<notin> insert n (known_signals s)) (map fst nums) =
              filter (\<lambda>m. m \<notin> known_signals s) (map fst nums)"
    using nn by (intro filter_cong) auto
  show ?case
  proof (cases "n \<in> known_signals s")
    case True
    define s1 where "s1 = s\<lparr>data_store := D1\<rparr>"
    have w: "store_wf (data_store s1)" using w1 by (simp add: s1_def)
    from Cons.IH[OF w d, of newly]
    obtain D where D: "LiveDataStore_appends mem D1 (map (\<lambda>(n, x). (n, timestamp msg, x)) nums) = (None, D)"
      and wD: "store_wf D"
      and loop: "signals_loop mem msg (map (\<lambda>(n, x). (n, Number x)) nums) s1 newly =
         (None, s1\<lparr>data_store := D, known_signals := known_signals s1 \<union> set (map fst nums)\<rparr>,
          newly @ filter (\<lambda>n. n \<notin> known_signals s1) (map fst nums))"
      by (auto simp: s1_def)
    have k: "insert n (known_signals s \<union> fst ` set nums) = known_signals s \<union> fst ` set nums"
      using True by auto
    show ?thesis
      using ap D wD loop True p k by (simp add: s1_def)
  next
    case False
    define s1 where "s1 = s\<lparr>data_store := D1, known_signals := insert n (known_signals s)\<rparr>"
    have w: "store_wf (data_store s1)" using w1 by (simp add: s1_def)
    from Cons.IH[OF w d, of "newly @ [n]"]
    obtain D where D: "LiveDataStore_appends mem D1 (map (\<lambda>(n, x). (n, timestamp msg, x)) nums) = (None, D)"
      and wD: "store_wf D"
      and loop: "signals_loop mem msg (map (\<lambda>(n, x). (n, Number x)) nums) s1 (newly @ [n]) =
         (None, s1\<lparr>data_store := D, known_signals := known_signals s1 \<union> set (map fst nums)\<rparr>,
          (newly @ [n]) @ filter (\<lambda>n. n \<notin> known_signals s1) (map fst nums))"
      by (auto simp: s1_def)
    show ?thesis
      using ap D wD loop False p filt by (simp add: s1_def)
  qed
qed

lemma signals_loop_append:
  "signals_loop mem msg xs s newly = (None, s', newly') \<Longrightarrow>
   signals_loop mem msg (xs @ ys) s newly = signals_loop mem msg ys s' newly'"
proof (induction mem msg xs s newly rule: signals_loop.induct)
  case (1 mem msg s newly_discovered)
  then show ?case by simp
next
  case (2 mem msg signal_name v rest s newly_discovered)
  show ?case
  proof (cases "py_float v")
    case (Inl e)
    then show ?thesis using "2.prems" by simp
  next
    case (Inr x)
    obtain ro store' where ap:
      "LiveDataStore_append mem (data_store s) signal_name (timestamp msg) x = (ro, store')"
      by (cases "LiveDataStore_append mem (data_store s) signal_name (timestamp msg) x")
    show ?thesis
    proof (cases ro)
      case (Some e)
      then show ?thesis using "2.prems" Inr ap by simp
    next
      case None
      define s1 where "s1 = s\<lparr>data_store := store'\<rparr>"
      show ?thesis
      proof (cases "signal_name \<notin> known_signals s1")
        case True
        have run: "signals_loop mem msg rest
                       (s1\<lparr>known_signals := insert signal_name (known_signals s1)\<rparr>)
                       (newly_discovered @ [signal_name]) = (None, s', newly')"
          using "2.prems" Inr ap None True by (simp add: s1_def)
        from "2.IH"(1)[OF Inr ap[symmetric] None s1_def True run]
        show ?thesis using Inr ap None True by (simp add: s1_def)
      next
        case False
        have run: "signals_loop mem msg rest s1 newly_discovered = (None, s', newly')"
          using "2.prems" Inr ap None False by (simp add: s1_def)
        from "2.IH"(2)[OF Inr ap[symmetric] None s1_def False run]
        show ?thesis using Inr ap None False by (simp add: s1_def)
      qed
    qed
  qed
qed

lemma except_clauses_frame:
  assumes "except_clauses s msg e = (r, s')"
  shows "db s' = db s \<and> new_signals_callback s' = new_signals_callback s \<and>
     data_store s' = data_store s \<and> known_signals s' = known_signals s \<and>
     notified s' = notified s \<and> db_calls s' = db_calls s \<and>
     no_decode s \<subseteq> no_decode s' \<and>
     (\<exists>lx. logged s' = logged s @ lx \<and>
        (\<forall>l \<in> set lx. l = InfoCannotDecode (arbitration_id msg) \<or> l = ErrorDecoding (arbitration_id msg)))"
  using assms by (auto simp: except_clauses_def split: if_splits)

lemma on_message_received_dropped:
  "arbitration_id msg \<in> no_decode s \<Longrightarrow> on_message_received mem s msg = (None, s)"
  by (simp add: on_message_received_def)

lemma on_message_received_frame:
  assumes "on_message_received mem s msg = (r, s')"
  shows "db s' = db s \<and> new_signals_callback s' = new_signals_callback s \<and>
     known_signals s \<subseteq> known_signals s' \<and> no_decode s \<subseteq> no_decode s' \<and>
     (\<exists>extra. notified s' = notified s @ extra \<and> (\<forall>ns \<in> set extra. set ns \<inter> known_signals s = {})) \<and>
     (\<exists>lx. logged s' = logged s @ lx \<and>
        (\<forall>l \<in> set lx. l = InfoCannotDecode (arbitration_id msg) \<or> l = ErrorDecoding (arbitration_id msg)))"
proof (cases "arbitration_id msg \<in> no_decode s")
  case True
  then show ?thesis using assms by (simp add: on_message_received_def)
next
  case notin: False
  define s1 where "s1 = s\<lparr>db_calls := db_calls s @ [GetMessageByFrameId (arbitration_id msg)]\<rparr>"
  show ?thesis
  proof (cases "db s (arbitration_id msg)")
    case None
    then have "except_clauses s1 msg KeyError = (r, s')"
      using assms notin by (simp add: on_message_received_def s1_def)
    from except_clauses_frame[OF this] show ?thesis by (simp add: s1_def)
  next
    case (Some dm)
    define s2 where "s2 = s1\<lparr>db_calls := db_calls s1 @ [Decode (arbitration_id msg) (data msg)]\<rparr>"
    show ?thesis
    proof (cases "dm (data msg)")
      case (Inl e)
      then have "except_clauses s2 msg e = (r, s')"
        using assms notin Some by (simp add: on_message_received_def s1_def s2_def)
      from except_clauses_frame[OF this] show ?thesis by (simp add: s1_def s2_def)
    next
      case (Inr sigs)
      obtain lr s3 newly where loop: "signals_loop mem msg sigs s2 [] = (lr, s3, newly)"
        by (cases "signals_loop mem msg sigs s2 []")
      from signals_loop_frame[OF loop]
      have f3: "db s3 = db s" "new_signals_callback s3 = new_signals_callback s"
        "no_decode s3 = no_decode s" "logged s3 = logged s" "notified s3 = notified s"
        "known_signals s \<subseteq> known_signals s3" "set newly \<inter> known_signals s = {}"
        by (auto simp: s1_def s2_def)
      have body: "on_message_received mem s msg =
         (case lr of
            Some e \<Rightarrow> except_clauses s3 msg e
          | None \<Rightarrow>
              (if newly \<noteq> [] then
                 (case new_signals_callback s3 of
                    None \<Rightarrow> (None, s3)
                  | Some callback \<Rightarrow>
                      (let s4 = s3\<lparr>notified := notified s3 @ [newly]\<rparr> in
                       case callback newly of
                         None \<Rightarrow> (None, s4)
                       | Some e \<Rightarrow> except_clauses s4 msg e))
               else (None, s3)))"
        using notin Some Inr loop
        by (simp add: on_message_received_def s1_def s2_def Let_def split: option.splits)
      show ?thesis
      proof (cases lr)
        case (Some e)
        then have "except_clauses s3 msg e = (r, s')" using body assms by simp
        from except_clauses_frame[OF this] show ?thesis using f3 by simp
      next
        case None
        show ?thesis
        proof (cases "newly \<noteq> [] \<and> new_signals_callback s3 \<noteq> None")
          case False
          then have "s' = s3" using body assms None by (auto split: option.splits)
          then show ?thesis using f3 by simp
        next
          case True
          then obtain cb where cb: "new_signals_callback s3 = Some cb" by auto
          define s4 where "s4 = s3\<lparr>notified := notified s3 @ [newly]\<rparr>"
          show ?thesis
          proof (cases "cb newly")
            case None': None
            then have "s' = s4" using body assms None True cb by (simp add: s4_def)
            then show ?thesis using f3 by (simp add: s4_def)
          next
            case (Some e)
            then have "except_clauses s4 msg e = (r, s')"
              using body assms None True cb by (simp add: s4_def)
            from except_clauses_frame[OF this] show ?thesis using f3 by (simp add: s4_def)
          qed
        qed
      qed
    qed
  qed
qed

lemma deliver_frame:
  "deliver mem s ms = (r, s') \<Longrightarrow>
     db s' = db s \<and> new_signals_callback s' = new_signals_callback s \<and>
     known_signals s \<subseteq> known_signals s' \<and> no_decode s \<subseteq> no_decode s' \<and>
     (\<exists>extra. notified s' = notified s @ extra \<and> (\<forall>ns \<in> set extra. set ns \<inter> known_signals s = {}))"
proof (induction ms arbitrary: s)
  case Nil
  then show ?case by simp
next
  case (Cons m ms)
  obtain r1 s1 where st: "on_message_received mem s m = (r1, s1)"
    by (cases "on_message_received mem s m")
  note f1 = on_message_received_frame[OF st]
  show ?case
  proof (cases r1)
    case (Some e)
    then have "s' = s1" using Cons.prems st by simp
    then show ?thesis using f1 by simp
  next
    case None
    then have "deliver mem s1 ms = (r, s')" using Cons.prems st by simp
    from Cons.IH[OF this]
    obtain extra where e: "notified s' = notified s1 @ extra"
        "\<forall>ns \<in> set extra. set ns \<inter> known_signals s1 = {}"
      and rest: "db s' = db s1" "new_signals_callback s' = new_signals_callback s1"
        "known_signals s1 \<subseteq> known_signals s'" "no_decode s1 \<subseteq> no_decode s'"
      by auto
    obtain extra1 where e1: "notified s1 = notified s @ extra1"
        "\<forall>ns \<in> set extra1. set ns \<inter> known_signals s = {}"
      using f1 by auto
    have "notified s' = notified s @ (extra1 @ extra)" using e e1 by simp
    moreover have "\<forall>ns \<in> set (extra1 @ extra). set ns \<inter> known_signals s = {}"
      using e e1 f1 by auto
    ultimately show ?thesis using rest f1 by (metis subset_trans)
  qed
qed

lemma on_message_received_log_count:
  assumes "i \<in> no_decode s" and "on_message_received mem s msg = (r, s')"
  shows "count_list (logged s') (InfoCannotDecode i) = count_list (logged s) (InfoCannotDecode i)"
proof (cases "arbitration_id msg = i")
  case True
  then show ?thesis using assms by (simp add: on_message_received_def)
next
  case False
  obtain lx where "logged s' = logged s @ lx"
    "\<forall>l \<in> set lx. l = InfoCannotDecode (arbitration_id msg) \<or> l = ErrorDecoding (arbitration_id msg)"
    using on_message_received_frame[OF assms(2)] by auto
  moreover have "count_list lx (InfoCannotDecode i) = 0"
    using calculation(2) False by (auto simp: count_list_0_iff)
  ultimately show ?thesis by simp
qed

lemma deliver_log_count:
  "i \<in> no_decode s \<Longrightarrow> deliver mem s ms = (r, s') \<Longrightarrow>
     count_list (logged s') (InfoCannotDecode i) = count_list (logged s) (InfoCannotDecode i)"
proof (induction ms arbitrary: s)
  case Nil
  then show ?case by simp
next
  case (Cons m ms)
  obtain r1 s1 where st: "on_message_received mem s m = (r1, s1)"
    by (cases "on_message_received mem s m")
  have c1: "count_list (logged s1) (InfoCannotDecode i) = count_list (logged s) (InfoCannotDecode i)"
    by (rule on_message_received_log_count[OF Cons.prems(1) st])
  have i1: "i \<in> no_decode s1" using on_message_received_frame[OF st] Cons.prems(1) by auto
  show ?case
  proof (cases r1)
    case (Some e)
    then have "s' = s1" using Cons.prems st by simp
    then show ?thesis using c1 by simp
  next
    case None
    then have "deliver mem s1 ms = (r, s')" using Cons.prems st by simp
    from Cons.IH[OF i1 this] show ?thesis using c1 by simp
  qed
qed

text \<open>
  A decode failure other than \<open>KeyError\<close> on a resolved id changes the two traces and
  nothing else.
\<close>

lemma decode_failure_other_than_keyerror:
  assumes "arbitration_id msg \<notin> no_decode s"
    and "db s (arbitration_id msg) = Some dm"
    and "dm (data msg) = Inl e"
    and "is_Exception e" and "e \<noteq> KeyError"
  shows "on_message_received mem s msg =
           (None, s\<lparr>db_calls := db_calls s @ [GetMessageByFrameId (arbitration_id msg),
                                               Decode (arbitration_id msg) (data msg)],
                    logged := logged s @ [ErrorDecoding (arbitration_id msg)]\<rparr>)"
  using assms by (simp add: on_message_received_def except_clauses_def Let_def)

section \<open>Claims about the ring buffer\<close>

text \<open>
  Claim C1. For every capacity \<open>c \<ge> 1\<close> and every sequence of more than \<open>c\<close> appends to a
  freshly constructed buffer, no append fails and \<open>get_arrays\<close> returns exactly the last
  \<open>c\<close> appended (time, value) pairs, in the order they were appended, whatever the
  allocator left in the arrays.
\<close>

theorem snapshot_returns_last_capacity_appends:
  assumes "1 \<le> c" and "c < int (length xs)"
  shows "\<exists>b0 b. CircularBuffer_init mem c = Inr b0 \<and>
           CircularBuffer_appends b0 xs = (None, b) \<and>
           CircularBuffer_get_arrays b = (map fst (last_n c xs), map snd (last_n c xs)) \<and>
           int (length (last_n c xs)) = c"
proof -
  obtain b0 where b0: "CircularBuffer_init mem c = Inr b0" and h0: "buf_holds c [] b0"
    using buf_holds_init[of c mem] assms(1) by auto
  obtain b where b: "CircularBuffer_appends b0 xs = (None, b)" and h: "buf_holds c ([] @ xs) b"
    using buf_holds_appends[OF assms(1) h0, of xs] by blast
  have "CircularBuffer_get_arrays b = (map fst (last_n c xs), map snd (last_n c xs))"
    using buf_holds_get_arrays[OF assms(1), of xs b] h by (simp add: last_n_def)
  moreover have "int (length (last_n c xs)) = c"
    using assms by (simp add: last_n_def)
  ultimately show ?thesis using b0 b by blast
qed

text \<open>
  The scenario of the claim: capacity 5 and the appends (0,1), (1,2), (2,3), (3,4), (4,5),
  (5,6) give the times [1,2,3,4,5] and the values [2,3,4,5,6].
\<close>

theorem snapshot_returns_last_capacity_appends_witness:
  "\<exists>b0 b. CircularBuffer_init zero_mem 5 = Inr b0 \<and>
     CircularBuffer_appends b0 [(0, 1), (1, 2), (2, 3), (3, 4), (4, 5), (5, 6)] = (None, b) \<and>
     CircularBuffer_get_arrays b = ([1, 2, 3, 4, 5], [2, 3, 4, 5, 6])"
  using snapshot_returns_last_capacity_appends
          [of 5 "[(0, 1), (1, 2), (2, 3), (3, 4), (4, 5), (5, 6)]" zero_mem]
  by (simp add: last_n_def)

text \<open>
  Claim C8 as stated does not hold: the constructor accepts capacity 0, and on the buffer
  it returns \<open>append\<close> raises \<open>IndexError\<close>.
\<close>

theorem zero_capacity_counterexample:
  "CircularBuffer_init zero_mem 0 =
     Inr \<lparr>cb_t = [], cb_val = [], cb_capacity = 0, cb_head = 0, cb_count = 0\<rparr> \<and>
   CircularBuffer_append \<lparr>cb_t = [], cb_val = [], cb_capacity = 0, cb_head = 0, cb_count = 0\<rparr> 0 1 =
     (Some IndexError, \<lparr>cb_t = [], cb_val = [], cb_capacity = 0, cb_head = 0, cb_count = 0\<rparr>)"
  by (simp add: CircularBuffer_init_def np_empty_def CircularBuffer_append_def np_setitem_def)

text \<open>
  Claim C8, amended. Constructing a ring buffer with capacity 0 does not fail: the
  constructor has no capacity check and returns an empty buffer, and the failure comes
  with the first \<open>append\<close>, which on that buffer always raises \<open>IndexError\<close> and changes
  nothing. Once a buffer has been successfully constructed with capacity at least 1,
  \<open>append\<close> can never fail, however many appends are made.
\<close>

theorem zero_capacity_fails_at_append:
  "(\<exists>b0. CircularBuffer_init mem 0 = Inr b0) \<and>
   (\<forall>b0. CircularBuffer_init mem 0 = Inr b0 \<longrightarrow>
      (\<forall>t v. CircularBuffer_append b0 t v = (Some IndexError, b0))) \<and>
   (\<forall>b0. CircularBuffer_init mem c = Inr b0 \<and> 1 \<le> c \<longrightarrow>
      (\<forall>xs. fst (CircularBuffer_appends b0 xs) = None))"
proof (intro conjI allI impI)
  show "\<exists>b0. CircularBuffer_init mem 0 = Inr b0"
    by (simp add: CircularBuffer_init_def np_empty_def)
next
  fix b0 t v
  assume "CircularBuffer_init mem 0 = Inr b0"
  then have "b0 = \<lparr>cb_t = [], cb_val = [], cb_capacity = 0, cb_head = 0, cb_count = 0\<rparr>"
    by (simp add: CircularBuffer_init_def np_empty_def)
  then show "CircularBuffer_append b0 t v = (Some IndexError, b0)"
    by (simp add: CircularBuffer_append_def np_setitem_def)
next
  fix b0 xs
  assume a: "CircularBuffer_init mem c = Inr b0 \<and> 1 \<le> c"
  then have c: "1 \<le> c" by simp
  obtain b where "CircularBuffer_init mem c = Inr b" "buf_holds c [] b"
    using buf_holds_init[of c mem] c by auto
  then have h0: "buf_holds c [] b0" using a by simp
  show "fst (CircularBuffer_appends b0 xs) = None"
    using buf_holds_appends[OF c h0, of xs] by auto
qed

theorem zero_capacity_fails_at_append_witness:
  "(\<exists>b0. CircularBuffer_init zero_mem 0 = Inr b0 \<and>
      CircularBuffer_append b0 0 1 = (Some IndexError, b0)) \<and>
   (\<exists>b0. CircularBuffer_init zero_mem 2 = Inr b0 \<and>
      fst (CircularBuffer_appends b0 [(0, 1), (1, 2), (2, 3)]) = None)"
proof -
  obtain z0 where z0: "CircularBuffer_init zero_mem 0 = Inr z0"
    using zero_capacity_fails_at_append[of zero_mem 2] by blast
  then have z: "CircularBuffer_append z0 0 1 = (Some IndexError, z0)"
    using zero_capacity_fails_at_append[of zero_mem 2] by blast
  obtain b0 where b0: "CircularBuffer_init zero_mem 2 = Inr b0"
    using buf_holds_init[of 2 zero_mem] by auto
  then have "CircularBuffer_init zero_mem 2 = Inr b0 \<and> (1::int) \<le> 2" by simp
  then have "fst (CircularBuffer_appends b0 [(0, 1), (1, 2), (2, 3)]) = None"
    using zero_capacity_fails_at_append[of zero_mem 2] by blast
  then show ?thesis using z0 z b0 by blast
qed

section \<open>Claims about the fixed-window refresh\<close>

text \<open>
  Claim C2. In fixed-window mode, for every time-ascending snapshot array \<open>t\<close> and window
  \<open>[t_min, t_min + w]\<close>, the left bound computed by \<open>refresh_plots\<close> is the first index
  with time \<open>\<ge> t_min\<close> and the right bound is the first index with time \<open>> t_min + w\<close>;
  an index lies between the bounds exactly when its time lies in the window, so the
  selected times and values are exactly those of the samples in the window; and the tick
  computes \<open>t_min = max(0, t_max - w)\<close> from the latest timestamp and hands
  \<open>(t_min, t_min + w)\<close> to \<open>refresh_plots\<close>.
\<close>

theorem fixed_window_visible_range:
  assumes "sorted t"
  shows "visible_indices t (t_min, t_min + w) =
           (first_index (\<lambda>x. t_min \<le> x) t, first_index (\<lambda>x. t_min + w < x) t) \<and>
         (\<forall>i < length t.
            (fst (visible_indices t (t_min, t_min + w)) \<le> i \<and>
             i < snd (visible_indices t (t_min, t_min + w)))
            \<longleftrightarrow> (t_min \<le> t ! i \<and> t ! i \<le> t_min + w)) \<and>
         slice_between t (fst (visible_indices t (t_min, t_min + w)))
                         (snd (visible_indices t (t_min, t_min + w))) =
           filter (\<lambda>x. t_min \<le> x \<and> x \<le> t_min + w) t \<and>
         (length val = length t \<longrightarrow>
            slice_between val (fst (visible_indices t (t_min, t_min + w)))
                              (snd (visible_indices t (t_min, t_min + w))) =
              map snd (filter (\<lambda>(x, y). t_min \<le> x \<and> x \<le> t_min + w) (zip t val))) \<and>
         (LiveDataStore_get_latest_timestamp store = Some t_max \<and> TIME_WINDOWS_get key = Some w \<longrightarrow>
            on_refresh_tick_range True key store =
              Some (max 0 (t_max - w), max 0 (t_max - w), max 0 (t_max - w) + w))"
proof -
  let ?lo = "first_index (\<lambda>x. t_min \<le> x) t"
  let ?hi = "first_index (\<lambda>x. t_min + w < x) t"
  have vi: "visible_indices t (t_min, t_min + w) = (?lo, ?hi)"
    by (rule visible_indices_first_index[OF assms])
  have iff: "\<forall>i < length t. (?lo \<le> i \<and> i < ?hi) \<longleftrightarrow> (t_min \<le> t ! i \<and> t ! i \<le> t_min + w)"
    using window_index_iff[OF assms] by blast
  have hi: "?hi \<le> length t" by (rule first_index_le_length)
  have times: "slice_between t ?lo ?hi = filter (\<lambda>x. t_min \<le> x \<and> x \<le> t_min + w) t"
    unfolding slice_between_def
    by (rule filter_index_range[symmetric, OF hi]) (use iff in auto)
  have vals: "slice_between val ?lo ?hi =
      map snd (filter (\<lambda>(x, y). t_min \<le> x \<and> x \<le> t_min + w) (zip t val))"
    if len: "length val = length t"
  proof -
    have "filter (\<lambda>(x, y). t_min \<le> x \<and> x \<le> t_min + w) (zip t val)
            = take (?hi - ?lo) (drop ?lo (zip t val))"
      by (rule filter_index_range) (use hi len iff in auto)
    also have "\<dots> = zip (take (?hi - ?lo) (drop ?lo t)) (take (?hi - ?lo) (drop ?lo val))"
      by (simp add: take_zip drop_zip)
    finally show ?thesis using len by (simp add: slice_between_def)
  qed
  have tick: "on_refresh_tick_range True key store =
              Some (max 0 (t_max - w), max 0 (t_max - w), max 0 (t_max - w) + w)"
    if "LiveDataStore_get_latest_timestamp store = Some t_max \<and> TIME_WINDOWS_get key = Some w"
    using that by (simp add: on_refresh_tick_range_def Let_def)
  show ?thesis using vi iff times vals tick by simp
qed

text \<open>
  The scenario of the claim: a store of capacity 100 after samples at
  \<open>t = 0, 1, \<dots>, 99\<close> on one channel, refreshed with the 10 s window. The tick computes
  \<open>t_min = 89\<close> and the range \<open>(89, 99)\<close>; on the channel's snapshot the index range is
  \<open>[89, 100)\<close> and the selected samples are those at the times 89 to 99.
\<close>

theorem fixed_window_visible_range_witness:
  "\<exists>s t val.
     LiveDataStore_appends zero_mem (LiveDataStore_init 100) hundred_samples = (None, s) \<and>
     on_refresh_tick_range True ''win_10s'' s = Some (89, 89, 99) \<and>
     LiveDataStore_get_arrays s ''speed'' = Some (t, val) \<and>
     t = map real [0..<100] \<and>
     visible_indices t (89, 99) = (89, 100) \<and>
     slice_between t 89 100 = map real [89..<100] \<and>
     visible_slice t val (89, 99) = Some (map real [89..<100])"
proof -
  let ?t = "map real [0..<100]"
  have ne: "hundred_samples \<noteq> []" by (simp add: hundred_samples_def)
  have hd: "fst (snd (hd hundred_samples)) = 0" unfolding hundred_samples_def by code_simp
  obtain s where run: "LiveDataStore_appends zero_mem (LiveDataStore_init 100) hundred_samples = (None, s)"
    and h: "store_holds 100 0 hundred_samples s"
    using session_holds[of 100 "LiveDataStore_init 100" hundred_samples 0 zero_mem] hd by auto
  have mx: "Max (set (rel_times 0 hundred_samples)) = 99"
    unfolding hundred_samples_def rel_times_def by code_simp
  have lat: "LiveDataStore_get_latest_timestamp s = Some 99"
    using h ne mx by (simp add: store_holds_def LiveDataStore_get_latest_timestamp_def)
  have rs: "rel_samples 0 hundred_samples ''speed'' = zip ?t ?t"
    unfolding hundred_samples_def rel_samples_def by code_simp
  have mem: "''speed'' \<in> fst ` set hundred_samples"
    unfolding hundred_samples_def by code_simp
  have ga: "LiveDataStore_get_arrays s ''speed'' = Some (?t, ?t)"
    using store_holds_get_arrays[OF _ h, of "''speed''"] mem rs by simp
  have srt: "sorted ?t"
    by (simp add: sorted_map sorted_wrt_iff_nth_less)
  note th = fixed_window_visible_range[OF srt, of 89 10 ?t s 99 "''win_10s''"]
  have l: "first_index (\<lambda>x. 89 \<le> x) ?t = 89" by code_simp
  have r: "first_index (\<lambda>x. 99 < x) ?t = 100" by code_simp
  have f: "filter (\<lambda>x. 89 \<le> x \<and> x \<le> 99) ?t = map real [89..<100]" by code_simp
  have tw: "TIME_WINDOWS_get ''win_10s'' = Some 10" by (simp add: TIME_WINDOWS_get_def)
  have vi: "visible_indices ?t (89, 99) = (89, 100)"
    using th l r by simp
  have sl: "slice_between ?t 89 100 = map real [89..<100]"
    using th vi f by simp
  have vs: "visible_slice ?t ?t (89, 99) = Some (map real [89..<100])"
    using vi sl by (simp add: visible_slice_def)
  have tk: "on_refresh_tick_range True ''win_10s'' s = Some (89, 89, 99)"
    using th tw lat by simp
  show ?thesis using run tk ga vi sl vs by blast
qed

section \<open>Claims about the data store\<close>

text \<open>
  Claim C3. On a store that was just constructed or cleared (capacity at least 1), the
  first \<open>append\<close> sets \<open>t0\<close> to its absolute timestamp, so the first stored sample has
  relative time 0; in the rest of the session \<open>t0\<close> stays there, every channel's snapshot
  holds the retained samples with relative time \<open>absolute_t - t0\<close>, and the sample stored
  by the latest call is the last of its channel with exactly that relative time.
\<close>

theorem relative_time_from_first_append:
  assumes "1 \<le> c"
    and "s = LiveDataStore_init c \<or> (\<exists>s0. s = LiveDataStore_clear s0 \<and> buffer_capacity s0 = c)"
  shows "\<exists>s1 s'.
      LiveDataStore_append mem s n1 ts1 v1 = (None, s1) \<and> t0 s1 = Some ts1 \<and>
      LiveDataStore_get_arrays s1 n1 = Some ([0], [v1]) \<and>
      LiveDataStore_appends mem s ((n1, ts1, v1) # rest) = (None, s') \<and> t0 s' = Some ts1 \<and>
      (\<forall>name. LiveDataStore_get_arrays s' name =
         (if name \<in> fst ` set ((n1, ts1, v1) # rest)
          then Some (map fst (last_n c (rel_samples ts1 ((n1, ts1, v1) # rest) name)),
                     map snd (last_n c (rel_samples ts1 ((n1, ts1, v1) # rest) name)))
          else None)) \<and>
      (\<forall>n ts v. last ((n1, ts1, v1) # rest) = (n, ts, v) \<longrightarrow>
         (\<exists>tl vl. LiveDataStore_get_arrays s' n = Some (tl, vl) \<and> tl \<noteq> [] \<and> vl \<noteq> [] \<and>
                  last tl = ts - ts1 \<and> last vl = v))"
proof -
  let ?xs = "(n1, ts1, v1) # rest"
  obtain s' where run: "LiveDataStore_appends mem s ?xs = (None, s')"
    and h: "store_holds c ts1 ?xs s'"
    using session_holds[OF assms, of ?xs ts1 mem] by auto
  obtain s1 where run1: "LiveDataStore_appends mem s [(n1, ts1, v1)] = (None, s1)"
    and h1: "store_holds c ts1 [(n1, ts1, v1)] s1"
    using session_holds[OF assms, of "[(n1, ts1, v1)]" ts1 mem] by auto
  have step1: "LiveDataStore_append mem s n1 ts1 v1 = (None, s1)"
    using run1 by (auto split: prod.splits option.splits)
  have ga: "LiveDataStore_get_arrays s' name =
         (if name \<in> fst ` set ?xs
          then Some (map fst (last_n c (rel_samples ts1 ?xs name)),
                     map snd (last_n c (rel_samples ts1 ?xs name)))
          else None)" for name
    using store_holds_get_arrays[OF assms(1) h, of name] by (simp add: last_n_def)
  have ga1: "LiveDataStore_get_arrays s1 n1 = Some ([0], [v1])"
    using store_holds_get_arrays[OF assms(1) h1, of n1] assms(1) by (simp add: rel_samples_def)
  have t0': "t0 s' = Some ts1" using h by (simp add: store_holds_def)
  have t01: "t0 s1 = Some ts1" using h1 by (simp add: store_holds_def)
  have lastp: "\<exists>tl vl. LiveDataStore_get_arrays s' n = Some (tl, vl) \<and> tl \<noteq> [] \<and> vl \<noteq> [] \<and>
                  last tl = ts - ts1 \<and> last vl = v"
    if l: "last ?xs = (n, ts, v)" for n ts v
  proof -
    obtain ys where ys: "rel_samples ts1 ?xs n = ys @ [(ts - ts1, v)]"
      using rel_samples_last[of ?xs n ts v ts1] l by auto
    have mem: "n \<in> fst ` set ?xs"
      using l by (metis fst_conv image_eqI last_in_set list.distinct(1))
    have ne: "last_n c (ys @ [(ts - ts1, v)]) \<noteq> []"
      and la: "last (last_n c (ys @ [(ts - ts1, v)])) = (ts - ts1, v)"
      using last_n_snoc_last[OF assms(1), of ys "(ts - ts1, v)"] by simp_all
    show ?thesis using ga[of n] mem ys ne la by (simp add: last_map)
  qed
  show ?thesis using step1 t01 ga1 run t0' ga lastp by blast
qed

theorem relative_time_from_first_append_witness:
  "\<exists>s1 s'.
      LiveDataStore_append zero_mem (LiveDataStore_init 2) ''rpm'' 1000 7 = (None, s1) \<and>
      t0 s1 = Some 1000 \<and>
      LiveDataStore_get_arrays s1 ''rpm'' = Some ([0], [7]) \<and>
      LiveDataStore_appends zero_mem (LiveDataStore_init 2)
        [(''rpm'', 1000, 7), (''speed'', 1001, 3), (''rpm'', 1003, 8), (''rpm'', 1004, 9)] = (None, s') \<and>
      t0 s' = Some 1000 \<and>
      LiveDataStore_get_arrays s' ''rpm'' = Some ([3, 4], [8, 9]) \<and>
      LiveDataStore_get_arrays s' ''speed'' = Some ([1], [3]) \<and>
      LiveDataStore_get_arrays s' ''temp'' = None"
proof -
  let ?rest = "[(''speed'', 1001, 3), (''rpm'', 1003, 8), (''rpm'', 1004, 9)] :: (string \<times> real \<times> real) list"
  let ?xs = "(''rpm'', 1000, 7) # ?rest"
  have c: "(1::int) \<le> 2" by simp
  have f: "LiveDataStore_init 2 = LiveDataStore_init 2 \<or>
     (\<exists>s0. LiveDataStore_init 2 = LiveDataStore_clear s0 \<and> buffer_capacity s0 = 2)" by simp
  from relative_time_from_first_append[OF c f, of zero_mem "''rpm''" 1000 7 ?rest]
  obtain s1 s' where
    a: "LiveDataStore_append zero_mem (LiveDataStore_init 2) ''rpm'' 1000 7 = (None, s1)"
       "t0 s1 = Some 1000" "LiveDataStore_get_arrays s1 ''rpm'' = Some ([0], [7])"
       "LiveDataStore_appends zero_mem (LiveDataStore_init 2) ?xs = (None, s')"
       "t0 s' = Some 1000"
    and g: "\<forall>name. LiveDataStore_get_arrays s' name =
         (if name \<in> fst ` set ?xs
          then Some (map fst (last_n 2 (rel_samples 1000 ?xs name)),
                     map snd (last_n 2 (rel_samples 1000 ?xs name)))
          else None)"
    by (elim exE conjE) 
  have "LiveDataStore_get_arrays s' ''rpm'' = Some ([3, 4], [8, 9])"
    using g by (simp add: rel_samples_def last_n_def)
  moreover have "LiveDataStore_get_arrays s' ''speed'' = Some ([1], [3])"
    using g by (simp add: rel_samples_def last_n_def)
  moreover have "LiveDataStore_get_arrays s' ''temp'' = None"
    using g by simp
  ultimately show ?thesis using a by auto
qed

text \<open>
  Claim C4. After any sequence of appends to a store that was just constructed or cleared
  (capacity at least 1), \<open>get_latest_timestamp\<close> returns the maximum of the relative
  timestamps of all appended samples, whatever their channels, and \<open>None\<close> when there was
  no append; one more append never makes the returned value smaller.
\<close>

theorem latest_timestamp_is_max:
  assumes "1 \<le> c"
    and "s = LiveDataStore_init c \<or> (\<exists>s0. s = LiveDataStore_clear s0 \<and> buffer_capacity s0 = c)"
  shows "\<exists>s'. LiveDataStore_appends mem s xs = (None, s') \<and>
      LiveDataStore_get_latest_timestamp s' =
        (if xs = [] then None else Some (Max (set (rel_times (fst (snd (hd xs))) xs)))) \<and>
      (\<forall>n ts v l. LiveDataStore_get_latest_timestamp s' = Some l \<longrightarrow>
         (\<exists>l'. LiveDataStore_get_latest_timestamp (snd (LiveDataStore_append mem s' n ts v)) = Some l'
               \<and> l \<le> l'))"
proof -
  obtain s' where run: "LiveDataStore_appends mem s xs = (None, s')"
    and h: "store_holds c (fst (snd (hd xs))) xs s'"
    using session_holds[OF assms, of xs "fst (snd (hd xs))" mem] by auto
  have "LiveDataStore_get_latest_timestamp s' =
        (if xs = [] then None else Some (Max (set (rel_times (fst (snd (hd xs))) xs))))"
    using h by (simp add: store_holds_def LiveDataStore_get_latest_timestamp_def)
  moreover have "\<exists>l'. LiveDataStore_get_latest_timestamp (snd (LiveDataStore_append mem s' n ts v)) = Some l'
               \<and> l \<le> l'" if "LiveDataStore_get_latest_timestamp s' = Some l" for n ts v l
    using append_latest_mono[of mem s' n ts v _ _ l] that
    by (cases "LiveDataStore_append mem s' n ts v") (simp add: LiveDataStore_get_latest_timestamp_def)
  ultimately show ?thesis using run by blast
qed

theorem latest_timestamp_is_max_witness:
  "\<exists>s'. LiveDataStore_appends zero_mem (LiveDataStore_init 2)
           [(''rpm'', 1000, 7), (''speed'', 1003, 3), (''rpm'', 1002, 8)] = (None, s') \<and>
      LiveDataStore_get_latest_timestamp s' = Some 3 \<and>
      LiveDataStore_get_latest_timestamp (LiveDataStore_init 2) = None"
proof -
  have "(1::int) \<le> 2" by simp
  moreover have "LiveDataStore_init 2 = LiveDataStore_init 2 \<or>
     (\<exists>s0. LiveDataStore_init 2 = LiveDataStore_clear s0 \<and> buffer_capacity s0 = 2)" by simp
  ultimately have "\<exists>s'. LiveDataStore_appends zero_mem (LiveDataStore_init 2)
           [(''rpm'', 1000, 7), (''speed'', 1003, 3), (''rpm'', 1002, 8)] = (None, s') \<and>
      LiveDataStore_get_latest_timestamp s' =
        (if [(''rpm'', 1000::real, 7::real), (''speed'', 1003, 3), (''rpm'', 1002, 8)] = [] then None
         else Some (Max (set (rel_times (fst (snd (hd [(''rpm'', 1000::real, 7::real), (''speed'', 1003, 3), (''rpm'', 1002, 8)])))
            [(''rpm'', 1000, 7), (''speed'', 1003, 3), (''rpm'', 1002, 8)]))))"
    using latest_timestamp_is_max[of 2 "LiveDataStore_init 2" zero_mem
        "[(''rpm'', 1000, 7), (''speed'', 1003, 3), (''rpm'', 1002, 8)]"]
    by blast
  then show ?thesis
    by (simp add: rel_times_def LiveDataStore_get_latest_timestamp_def LiveDataStore_init_def)
qed

section \<open>Claims about the decoder\<close>


text \<open>
  Claim C6. For a frame that decodes to numeric signals (distinct names, as in a
  dictionary), every signal is appended to the store and added to the first-seen set, and
  the frame makes at most one discovery notification: none when no name is new or no
  callback is installed, and otherwise exactly one, carrying exactly the names not seen
  before, in the order of the frame. When the callback does not raise, the handler returns
  normally and logs nothing.
\<close>

theorem one_discovery_notification_per_frame:
  assumes "arbitration_id msg \<notin> no_decode s"
    and "db s (arbitration_id msg) = Some dm"
    and "dm (data msg) = Inr (map (\<lambda>(n, x). (n, Number x)) nums)"
    and "distinct (map fst nums)"
    and "store_wf (data_store s)"
  shows "\<exists>r s' D.
      on_message_received mem s msg = (r, s') \<and>
      LiveDataStore_appends mem (data_store s) (map (\<lambda>(n, x). (n, timestamp msg, x)) nums) = (None, D) \<and>
      data_store s' = D \<and> store_wf D \<and>
      known_signals s' = known_signals s \<union> set (map fst nums) \<and>
      notified s' = notified s @
        (if filter (\<lambda>n. n \<notin> known_signals s) (map fst nums) = [] \<or> new_signals_callback s = None
         then [] else [filter (\<lambda>n. n \<notin> known_signals s) (map fst nums)]) \<and>
      db s' = db s \<and> new_signals_callback s' = new_signals_callback s \<and>
      ((\<forall>cb. new_signals_callback s = Some cb \<longrightarrow>
           cb (filter (\<lambda>n. n \<notin> known_signals s) (map fst nums)) = None) \<longrightarrow>
         r = None \<and> no_decode s' = no_decode s \<and> logged s' = logged s)"
proof -
  let ?i = "arbitration_id msg"
  let ?new = "filter (\<lambda>n. n \<notin> known_signals s) (map fst nums)"
  define s2 where "s2 = s\<lparr>db_calls := db_calls s @ [GetMessageByFrameId ?i, Decode ?i (data msg)]\<rparr>"
  have w2: "store_wf (data_store s2)" using assms(5) by (simp add: s2_def)
  from signals_loop_numeric[OF w2 assms(4), of mem msg "[]"]
  obtain D where D: "LiveDataStore_appends mem (data_store s) (map (\<lambda>(n, x). (n, timestamp msg, x)) nums) = (None, D)"
    and wD: "store_wf D"
    and loop: "signals_loop mem msg (map (\<lambda>(n, x). (n, Number x)) nums) s2 [] =
         (None, s2\<lparr>data_store := D, known_signals := known_signals s \<union> set (map fst nums)\<rparr>, ?new)"
    by (auto simp: s2_def)
  define s3 where "s3 = s2\<lparr>data_store := D, known_signals := known_signals s \<union> set (map fst nums)\<rparr>"
  have body: "on_message_received mem s msg =
       (if ?new \<noteq> [] then
          (case new_signals_callback s of
             None \<Rightarrow> (None, s3)
           | Some callback \<Rightarrow>
               (case callback ?new of
                  None \<Rightarrow> (None, s3\<lparr>notified := notified s @ [?new]\<rparr>)
                | Some e \<Rightarrow> except_clauses (s3\<lparr>notified := notified s @ [?new]\<rparr>) msg e))
        else (None, s3))"
    using assms(1,2,3) loop
    by (simp add: on_message_received_def Let_def s2_def s3_def split: option.splits)
  obtain r s' where res: "on_message_received mem s msg = (r, s')"
    by (cases "on_message_received mem s msg")
  have f3: "data_store s3 = D" "known_signals s3 = known_signals s \<union> set (map fst nums)"
    "db s3 = db s" "new_signals_callback s3 = new_signals_callback s"
    "no_decode s3 = no_decode s" "logged s3 = logged s" "notified s3 = notified s"
    by (simp_all add: s3_def s2_def)
  have main: "data_store s' = D \<and>
      known_signals s' = known_signals s \<union> set (map fst nums) \<and>
      notified s' = notified s @
        (if ?new = [] \<or> new_signals_callback s = None then [] else [?new]) \<and>
      db s' = db s \<and> new_signals_callback s' = new_signals_callback s \<and>
      ((\<forall>cb. new_signals_callback s = Some cb \<longrightarrow> cb ?new = None) \<longrightarrow>
         r = None \<and> no_decode s' = no_decode s \<and> logged s' = logged s)"
  proof (cases "?new \<noteq> [] \<and> new_signals_callback s \<noteq> None")
    case False
    then have "r = None" "s' = s3" using body res by (auto split: option.splits)
    then show ?thesis using f3 False by auto
  next
    case True
    then obtain cb where cb: "new_signals_callback s = Some cb" by auto
    define s4 where "s4 = s3\<lparr>notified := notified s @ [?new]\<rparr>"
    show ?thesis
    proof (cases "cb ?new")
      case None
      then have "r = None" "s' = s4" using body res True cb by (simp_all add: s4_def)
      then show ?thesis using f3 True cb by (simp add: s4_def)
    next
      case (Some e)
      then have "except_clauses s4 msg e = (r, s')" using body res True cb by (simp add: s4_def)
      from except_clauses_frame[OF this] show ?thesis using f3 True cb Some by (simp add: s4_def)
    qed
  qed
  show ?thesis using res D wD main by blast
qed

text \<open>
  The scenario of the claim: a frame introducing A and B, then a frame introducing B and
  C, give one notification [A, B] and then one notification [C].
\<close>

theorem one_discovery_notification_per_frame_witness:
  "\<exists>s1 s2. on_message_received zero_mem scenario_listener (frame 1 10) = (None, s1) \<and>
     notified s1 = [[''A'', ''B'']] \<and>
     on_message_received zero_mem s1 (frame 2 11) = (None, s2) \<and>
     notified s2 = [[''A'', ''B''], [''C'']]"
proof -
  have a1: "arbitration_id (frame 1 10) \<notin> no_decode scenario_listener"
    by (simp add: scenario_listener_def DecoderListener_init_def)
  have b1: "db scenario_listener (arbitration_id (frame 1 10)) =
              Some (\<lambda>d. Inr [(''A'', Number 1), (''B'', Number 2)])"
    by (simp add: scenario_listener_def DecoderListener_init_def scenario_db_def frame_def)
  have c1: "(\<lambda>d. Inr [(''A'', Number 1), (''B'', Number 2)]) (data (frame 1 10)) =
              Inr (map (\<lambda>(n, x). (n, Number x)) [(''A'', 1), (''B'', 2)])" by simp
  have d1: "distinct (map fst [(''A'', 1::real), (''B'', 2)])" by simp
  have w1: "store_wf (data_store scenario_listener)"
    by (simp add: scenario_listener_def DecoderListener_init_def store_wf_init)
  from one_discovery_notification_per_frame[OF a1 b1 c1 d1 w1, of zero_mem]
  obtain r1 s1 where r1: "on_message_received zero_mem scenario_listener (frame 1 10) = (r1, s1)"
    and f1: "store_wf (data_store s1)" "known_signals s1 = {''A'', ''B''}"
      "notified s1 = [[''A'', ''B'']]" "db s1 = scenario_db"
      "new_signals_callback s1 = Some quiet_callback" "r1 = None" "no_decode s1 = {}"
    by (auto simp: scenario_listener_def DecoderListener_init_def quiet_callback_def)
  have a2: "arbitration_id (frame 2 11) \<notin> no_decode s1" using f1 by simp
  have b2: "db s1 (arbitration_id (frame 2 11)) =
              Some (\<lambda>d. Inr [(''B'', Number 3), (''C'', Number 4)])"
    using f1 by (simp add: scenario_db_def frame_def)
  have c2: "(\<lambda>d. Inr [(''B'', Number 3), (''C'', Number 4)]) (data (frame 2 11)) =
              Inr (map (\<lambda>(n, x). (n, Number x)) [(''B'', 3), (''C'', 4)])" by simp
  have d2: "distinct (map fst [(''B'', 3::real), (''C'', 4)])" by simp
  from one_discovery_notification_per_frame[OF a2 b2 c2 d2 f1(1), of zero_mem]
  obtain r2 s2 where r2: "on_message_received zero_mem s1 (frame 2 11) = (r2, s2)"
    and f2: "notified s2 = [[''A'', ''B''], [''C'']]" "r2 = None"
    using f1 by (auto simp: quiet_callback_def)
  show ?thesis using r1 f1 r2 f2 by auto
qed

text \<open>
  Claim C7. The first delivery of a frame whose id the schema does not resolve makes one
  resolution call and no decode call, logs exactly one unresolved-frame record, adds the id
  to the negative-result cache and changes nothing else. After any further deliveries, a
  frame with that id leaves the listener exactly as it was (no resolution, no decoding, no
  store mutation, no log record), and the log still holds exactly one more unresolved-frame
  record for that id than before the first delivery.
\<close>

theorem unresolved_id_logged_once:
  assumes "db s (arbitration_id msg) = None" and "arbitration_id msg \<notin> no_decode s"
  shows "on_message_received mem s msg =
           (None, s\<lparr>db_calls := db_calls s @ [GetMessageByFrameId (arbitration_id msg)],
                    logged := logged s @ [InfoCannotDecode (arbitration_id msg)],
                    no_decode := insert (arbitration_id msg) (no_decode s)\<rparr>) \<and>
         (\<forall>ms r s'' msg'.
            deliver mem (snd (on_message_received mem s msg)) ms = (r, s'') \<and>
            arbitration_id msg' = arbitration_id msg \<longrightarrow>
              on_message_received mem s'' msg' = (None, s'') \<and>
              count_list (logged s'') (InfoCannotDecode (arbitration_id msg)) =
                count_list (logged s) (InfoCannotDecode (arbitration_id msg)) + 1)"
proof -
  let ?i = "arbitration_id msg"
  let ?s' = "s\<lparr>db_calls := db_calls s @ [GetMessageByFrameId ?i],
                    logged := logged s @ [InfoCannotDecode ?i],
                    no_decode := insert ?i (no_decode s)\<rparr>"
  have first: "on_message_received mem s msg = (None, ?s')"
    using assms by (simp add: on_message_received_def except_clauses_def Let_def)
  have later: "\<forall>ms r s'' msg'. deliver mem ?s' ms = (r, s'') \<and> arbitration_id msg' = ?i \<longrightarrow>
              on_message_received mem s'' msg' = (None, s'') \<and>
              count_list (logged s'') (InfoCannotDecode ?i) =
                count_list (logged s) (InfoCannotDecode ?i) + 1"
  proof (intro allI impI)
    fix ms r s'' and msg' :: Message
    assume "deliver mem ?s' ms = (r, s'') \<and> arbitration_id msg' = ?i"
    then have d: "deliver mem ?s' ms = (r, s'')" and i: "arbitration_id msg' = ?i" by simp_all
    have mem0: "?i \<in> no_decode ?s'" by simp
    have "?i \<in> no_decode s''" using deliver_frame[OF d] mem0 by blast
    then have "on_message_received mem s'' msg' = (None, s'')"
      using i by (simp add: on_message_received_dropped)
    moreover have "count_list (logged s'') (InfoCannotDecode ?i) =
        count_list (logged ?s') (InfoCannotDecode ?i)"
      by (rule deliver_log_count[OF mem0 d])
    ultimately show "on_message_received mem s'' msg' = (None, s'') \<and>
              count_list (logged s'') (InfoCannotDecode ?i) =
                count_list (logged s) (InfoCannotDecode ?i) + 1" by simp
  qed
  have s: "snd (on_message_received mem s msg) = ?s'" using first by simp
  show ?thesis unfolding s by (rule conjI[OF first later])
qed

text \<open>The scenario: the unknown id 9 delivered twice to a fresh listener.\<close>

theorem unresolved_id_logged_once_witness:
  "deliver zero_mem scenario_listener [frame 9 10, frame 9 11] =
     (None, scenario_listener\<lparr>db_calls := [GetMessageByFrameId 9],
                               logged := [InfoCannotDecode 9], no_decode := {9}\<rparr>)"
proof -
  have a: "db scenario_listener (arbitration_id (frame 9 10)) = None"
    by (simp add: scenario_listener_def DecoderListener_init_def scenario_db_def frame_def)
  have b: "arbitration_id (frame 9 10) \<notin> no_decode scenario_listener"
    by (simp add: scenario_listener_def DecoderListener_init_def)
  note th = unresolved_id_logged_once[OF a b, of zero_mem]
  let ?s' = "scenario_listener\<lparr>db_calls := [GetMessageByFrameId 9],
                               logged := [InfoCannotDecode 9], no_decode := {9}\<rparr>"
  have first: "on_message_received zero_mem scenario_listener (frame 9 10) = (None, ?s')"
    using th by (simp add: scenario_listener_def DecoderListener_init_def frame_def)
  have "deliver zero_mem (snd (on_message_received zero_mem scenario_listener (frame 9 10))) []
          = (None, ?s') \<and> arbitration_id (frame 9 11) = arbitration_id (frame 9 10)"
    using first by (simp add: frame_def)
  then have second: "on_message_received zero_mem ?s' (frame 9 11) = (None, ?s')"
    using th by blast
  show ?thesis using first second by simp
qed

text \<open>
  Claim C9. When the loop over the decoded signals of a frame is ended by an exception
  (here \<open>float()\<close> rejecting a value) after the signals \<open>pre\<close> have been processed, those
  signals stay appended to the store and stay in the first-seen set, the frame makes no
  discovery notification, and no notification made by any later frame carries any of
  their names.
\<close>

theorem partial_frame_mutations_are_kept:
  assumes "arbitration_id msg \<notin> no_decode s"
    and "db s (arbitration_id msg) = Some dm"
    and "dm (data msg) = Inr (map (\<lambda>(n, x). (n, Number x)) pre @ (bad, NonNumeric) # post)"
    and "distinct (map fst pre)"
    and "store_wf (data_store s)"
  shows "\<exists>s' D.
      on_message_received mem s msg = (None, s') \<and>
      LiveDataStore_appends mem (data_store s) (map (\<lambda>(n, x). (n, timestamp msg, x)) pre) = (None, D) \<and>
      data_store s' = D \<and>
      known_signals s' = known_signals s \<union> set (map fst pre) \<and>
      notified s' = notified s \<and>
      logged s' = logged s @ [ErrorDecoding (arbitration_id msg)] \<and>
      (\<forall>ms r s''. deliver mem s' ms = (r, s'') \<longrightarrow>
         (\<exists>extra. notified s'' = notified s @ extra \<and>
                  (\<forall>ns \<in> set extra. set ns \<inter> set (map fst pre) = {})))"
proof -
  let ?i = "arbitration_id msg"
  let ?new = "filter (\<lambda>n. n \<notin> known_signals s) (map fst pre)"
  define s2 where "s2 = s\<lparr>db_calls := db_calls s @ [GetMessageByFrameId ?i, Decode ?i (data msg)]\<rparr>"
  have w2: "store_wf (data_store s2)" using assms(5) by (simp add: s2_def)
  from signals_loop_numeric[OF w2 assms(4), of mem msg "[]"]
  obtain D where D: "LiveDataStore_appends mem (data_store s) (map (\<lambda>(n, x). (n, timestamp msg, x)) pre) = (None, D)"
    and loop: "signals_loop mem msg (map (\<lambda>(n, x). (n, Number x)) pre) s2 [] =
         (None, s2\<lparr>data_store := D, known_signals := known_signals s \<union> set (map fst pre)\<rparr>, ?new)"
    by (auto simp: s2_def)
  define s3 where "s3 = s2\<lparr>data_store := D, known_signals := known_signals s \<union> set (map fst pre)\<rparr>"
  have whole: "signals_loop mem msg (map (\<lambda>(n, x). (n, Number x)) pre @ (bad, NonNumeric) # post) s2 [] =
         (Some TypeError, s3, ?new)"
    using signals_loop_append[OF loop, of "(bad, NonNumeric) # post"] by (simp add: s3_def)
  define s' where "s' = s3\<lparr>logged := logged s @ [ErrorDecoding ?i]\<rparr>"
  have res: "on_message_received mem s msg = (None, s')"
    using assms(1,2,3) whole
    by (simp add: on_message_received_def Let_def s2_def except_clauses_def s'_def s3_def)
  have f: "data_store s' = D" "known_signals s' = known_signals s \<union> set (map fst pre)"
    "notified s' = notified s" "logged s' = logged s @ [ErrorDecoding ?i]"
    by (simp_all add: s'_def s3_def s2_def)
  have later: "\<forall>ms r s''. deliver mem s' ms = (r, s'') \<longrightarrow>
         (\<exists>extra. notified s'' = notified s @ extra \<and>
                  (\<forall>ns \<in> set extra. set ns \<inter> set (map fst pre) = {}))"
  proof (intro allI impI)
    fix ms r s''
    assume "deliver mem s' ms = (r, s'')"
    from deliver_frame[OF this]
    obtain extra where "notified s'' = notified s' @ extra"
      "\<forall>ns \<in> set extra. set ns \<inter> known_signals s' = {}" by auto
    then have "notified s'' = notified s @ extra \<and>
                  (\<forall>ns \<in> set extra. set ns \<inter> set (map fst pre) = {})"
      using f by auto
    then show "\<exists>extra. notified s'' = notified s @ extra \<and>
                  (\<forall>ns \<in> set extra. set ns \<inter> set (map fst pre) = {})" by blast
  qed
  show ?thesis using res D f later by blast
qed

text \<open>
  The scenario: id 5 decodes to A = 1 and a value B that is not a number. A is stored and
  marked as seen, nothing is notified, and the later frames never announce A.
\<close>

theorem partial_frame_mutations_are_kept_witness:
  "\<exists>s'. on_message_received zero_mem scenario_listener (frame 5 10) = (None, s') \<and>
     LiveDataStore_get_arrays (data_store s') ''A'' = Some ([0], [1]) \<and>
     known_signals s' = {''A''} \<and> notified s' = [] \<and> logged s' = [ErrorDecoding 5] \<and>
     (\<forall>ns \<in> set (notified (snd (deliver zero_mem s' [frame 5 11, frame 1 12]))). ''A'' \<notin> set ns)"
proof -
  have a: "arbitration_id (frame 5 10) \<notin> no_decode scenario_listener"
    by (simp add: scenario_listener_def DecoderListener_init_def)
  have b: "db scenario_listener (arbitration_id (frame 5 10)) =
              Some (\<lambda>d. Inr [(''A'', Number 1), (''B'', NonNumeric)])"
    by (simp add: scenario_listener_def DecoderListener_init_def scenario_db_def frame_def)
  have c: "(\<lambda>d. Inr [(''A'', Number 1), (''B'', NonNumeric)]) (data (frame 5 10)) =
              Inr (map (\<lambda>(n, x). (n, Number x)) [(''A'', 1)] @ (''B'', NonNumeric) # [])" by simp
  have d: "distinct (map fst [(''A'', 1::real)])" by simp
  have w: "store_wf (data_store scenario_listener)"
    by (simp add: scenario_listener_def DecoderListener_init_def store_wf_init)
  from partial_frame_mutations_are_kept[OF a b c d w, of zero_mem]
  obtain s' D where r: "on_message_received zero_mem scenario_listener (frame 5 10) = (None, s')"
    and f: "LiveDataStore_appends zero_mem (LiveDataStore_init 5) [(''A'', 10, 1)] = (None, D)"
      "data_store s' = D" "known_signals s' = {''A''}" "notified s' = []"
      "logged s' = [ErrorDecoding 5]"
    and later: "\<forall>ms r s''. deliver zero_mem s' ms = (r, s'') \<longrightarrow>
         (\<exists>extra. notified s'' = [] @ extra \<and>
                  (\<forall>ns \<in> set extra. set ns \<inter> set (map fst [(''A'', 1::real)]) = {}))"
    by (auto simp: scenario_listener_def DecoderListener_init_def frame_def)
  have "store_holds 5 10 [(''A'', 10, 1)] D"
    using session_holds[of 5 "LiveDataStore_init 5" "[(''A'', 10, 1)]" 10 zero_mem] f(1) by simp
  from store_holds_get_arrays[OF _ this, of "''A''"]
  have g: "LiveDataStore_get_arrays (data_store s') ''A'' = Some ([0], [1])"
    using f(2) by (simp add: rel_samples_def)
  obtain r2 s2 where d2: "deliver zero_mem s' [frame 5 11, frame 1 12] = (r2, s2)"
    by (cases "deliver zero_mem s' [frame 5 11, frame 1 12]")
  then have "\<forall>ns \<in> set (notified s2). ''A'' \<notin> set ns" using later by fastforce
  then show ?thesis using r g f d2 by simp
qed

text \<open>
  Claim C10. When the id of a frame resolves but decoding raises \<open>KeyError\<close>, the handler
  logs the unresolved-frame record and adds the id to the negative-result cache, exactly
  as it does for an id that fails resolution (the cache and the log end up the same as on
  a schema without that id); after any further deliveries a frame with that id leaves the
  listener exactly as it was, so it is neither resolved nor decoded again.
\<close>

theorem decode_keyerror_caches_id:
  assumes "arbitration_id msg \<notin> no_decode s"
    and "db s (arbitration_id msg) = Some dm"
    and "dm (data msg) = Inl KeyError"
  shows "\<exists>s' u. on_message_received mem s msg = (None, s') \<and>
           on_message_received mem (s\<lparr>db := (db s)(arbitration_id msg := None)\<rparr>) msg = (None, u) \<and>
           no_decode s' = insert (arbitration_id msg) (no_decode s) \<and> no_decode u = no_decode s' \<and>
           logged s' = logged s @ [InfoCannotDecode (arbitration_id msg)] \<and> logged u = logged s' \<and>
           data_store s' = data_store s \<and> known_signals s' = known_signals s \<and>
           notified s' = notified s \<and>
           (\<forall>ms r s'' msg'.
              deliver mem s' ms = (r, s'') \<and> arbitration_id msg' = arbitration_id msg \<longrightarrow>
                on_message_received mem s'' msg' = (None, s''))"
proof -
  let ?i = "arbitration_id msg"
  let ?s' = "s\<lparr>db_calls := db_calls s @ [GetMessageByFrameId ?i, Decode ?i (data msg)],
                logged := logged s @ [InfoCannotDecode ?i],
                no_decode := insert ?i (no_decode s)\<rparr>"
  let ?u = "s\<lparr>db := (db s)(?i := None),
               db_calls := db_calls s @ [GetMessageByFrameId ?i],
               logged := logged s @ [InfoCannotDecode ?i],
               no_decode := insert ?i (no_decode s)\<rparr>"
  have first: "on_message_received mem s msg = (None, ?s')"
    using assms by (simp add: on_message_received_def except_clauses_def Let_def)
  have other: "on_message_received mem (s\<lparr>db := (db s)(?i := None)\<rparr>) msg = (None, ?u)"
    using assms(1) by (simp add: on_message_received_def except_clauses_def Let_def)
  have later: "\<forall>ms r s'' msg'. deliver mem ?s' ms = (r, s'') \<and> arbitration_id msg' = ?i \<longrightarrow>
              on_message_received mem s'' msg' = (None, s'')"
  proof (intro allI impI)
    fix ms r s'' and msg' :: Message
    assume "deliver mem ?s' ms = (r, s'') \<and> arbitration_id msg' = ?i"
    then have d: "deliver mem ?s' ms = (r, s'')" and i: "arbitration_id msg' = ?i" by simp_all
    have "?i \<in> no_decode ?s'" by simp
    then have "?i \<in> no_decode s''" using deliver_frame[OF d] by blast
    then show "on_message_received mem s'' msg' = (None, s'')"
      using i by (simp add: on_message_received_dropped)
  qed
  show ?thesis
  proof (intro exI conjI)
    show "on_message_received mem s msg = (None, ?s')" by (rule first)
    show "on_message_received mem (s\<lparr>db := (db s)(?i := None)\<rparr>) msg = (None, ?u)"
      by (rule other)
    show "\<forall>ms r s'' msg'. deliver mem ?s' ms = (r, s'') \<and> arbitration_id msg' = ?i \<longrightarrow>
              on_message_received mem s'' msg' = (None, s'')" by (rule later)
  qed simp_all
qed

text \<open>The scenario: id 3, whose decoding raises \<open>KeyError\<close>, delivered twice.\<close>

theorem decode_keyerror_caches_id_witness:
  "deliver zero_mem scenario_listener [frame 3 10, frame 3 11] =
     (None, scenario_listener\<lparr>db_calls := [GetMessageByFrameId 3, Decode 3 []],
                               logged := [InfoCannotDecode 3], no_decode := {3}\<rparr>)"
proof -
  let ?s' = "scenario_listener\<lparr>db_calls := [GetMessageByFrameId 3, Decode 3 []],
                               logged := [InfoCannotDecode 3], no_decode := {3}\<rparr>"
  have a: "arbitration_id (frame 3 10) \<notin> no_decode scenario_listener"
    by (simp add: scenario_listener_def DecoderListener_init_def)
  have b: "db scenario_listener (arbitration_id (frame 3 10)) = Some (\<lambda>d. Inl KeyError)"
    by (simp add: scenario_listener_def DecoderListener_init_def scenario_db_def frame_def)
  have c: "(\<lambda>d. Inl KeyError) (data (frame 3 10)) = Inl KeyError" by simp
  from decode_keyerror_caches_id[OF a b c, of zero_mem]
  obtain s' where first: "on_message_received zero_mem scenario_listener (frame 3 10) = (None, s')"
    and later: "\<forall>ms r s'' msg'.
              deliver zero_mem s' ms = (r, s'') \<and>
              arbitration_id msg' = arbitration_id (frame 3 10) \<longrightarrow>
                on_message_received zero_mem s'' msg' = (None, s'')"
    by auto
  have eq: "s' = ?s'"
    using first
    by (simp add: on_message_received_def except_clauses_def Let_def scenario_listener_def
        DecoderListener_init_def scenario_db_def frame_def)
  have "deliver zero_mem s' [] = (None, s') \<and>
        arbitration_id (frame 3 11) = arbitration_id (frame 3 10)"
    by (simp add: frame_def)
  then have second: "on_message_received zero_mem s' (frame 3 11) = (None, s')"
    using later by blast
  show ?thesis using first second eq by simp
qed

end
